theory Spec2Isabelle
  imports Complex_Main
begin

section \<open>Byte strings and the regular expressions of device.go\<close>

text \<open>
  A Go string is a sequence of bytes: \<^typ>\<open>string\<close>, a list of 8-bit characters.
  The frame terminator of the wire protocol is carriage return, line feed.
\<close>

definition CR :: char where
  "CR = CHR 0x0D"

definition LF :: char where
  "LF = CHR 0x0A"

definition CRLF :: string where
  "CRLF = [CR, LF]"

text \<open>
  The three patterns of device.go use character classes, literal characters, the
  one-or-more repetition of a class, and capturing groups around such a repetition.
  \<open>AnyNoNL\<close> is Go's \<open>.\<close>, which matches everything but a line feed; a negated
  class matches a line feed as well.

  Go matches runes, the model matches bytes. In each of the three patterns every
  repetition is followed by an ASCII literal and every class lists ASCII characters only,
  so a match never ends inside a multi-byte sequence and both views give the same byte
  offsets and the same captured substrings.
\<close>

datatype cclass = Chars string | NotChars string | AnyNoNL

datatype re_item = One cclass | Many cclass | Capture_Many cclass

fun cmatch :: "cclass \<Rightarrow> char \<Rightarrow> bool" where
  "cmatch (Chars cs) c = (c \<in> set cs)"
| "cmatch (NotChars cs) c = (c \<notin> set cs)"
| "cmatch AnyNoNL c = (c \<noteq> LF)"

definition lit :: "string \<Rightarrow> re_item list" where
  "lit s = map (\<lambda>c. One (Chars [c])) s"

text \<open>
  \<open>try_lens k f\<close> collects the results of \<open>f\<close> at the lengths \<open>k\<close>, \<open>k - 1\<close>,
  ..., \<open>1\<close>, in this order: a greedy repetition first tries the longest run and
  gives back one character at a time.
\<close>

fun try_lens :: "nat \<Rightarrow> (nat \<Rightarrow> 'a list) \<Rightarrow> 'a list" where
  "try_lens 0 f = []"
| "try_lens (Suc k) f = f (Suc k) @ try_lens k f"

text \<open>
  \<open>rmatch r s\<close> lists the ways in which the pattern \<open>r\<close> matches a prefix of \<open>s\<close>,
  in the order in which a backtracking matcher finds them (Go's leftmost-first rule
  takes the first one). Each result is the number of bytes consumed and the captured
  groups.
\<close>

fun rmatch :: "re_item list \<Rightarrow> string \<Rightarrow> (nat \<times> string list) list" where
  "rmatch [] s = [(0, [])]"
| "rmatch (One cc # r) s =
     (case s of
        [] \<Rightarrow> []
      | c # t \<Rightarrow> if cmatch cc c then map (\<lambda>(n, g). (Suc n, g)) (rmatch r t) else [])"
| "rmatch (Many cc # r) s =
     try_lens (length (takeWhile (cmatch cc) s))
       (\<lambda>k. map (\<lambda>(n, g). (k + n, g)) (rmatch r (drop k s)))"
| "rmatch (Capture_Many cc # r) s =
     try_lens (length (takeWhile (cmatch cc) s))
       (\<lambda>k. map (\<lambda>(n, g). (k + n, take k s # g)) (rmatch r (drop k s)))"

text \<open>
  The leftmost match: the start offsets are tried from left to right. The result is the
  start offset, the end offset and the captured groups.
\<close>

fun find_from :: "re_item list \<Rightarrow> string \<Rightarrow> nat \<Rightarrow> (nat \<times> nat \<times> string list) option" where
  "find_from r [] i =
     (case rmatch r [] of [] \<Rightarrow> None | (n, g) # _ \<Rightarrow> Some (i, i + n, g))"
| "find_from r (c # t) i =
     (case rmatch r (c # t) of
        [] \<Rightarrow> find_from r t (Suc i)
      | (n, g) # _ \<Rightarrow> Some (i, i + n, g))"

text \<open>\<open>regexp.FindStringIndex\<close>: the offsets of the leftmost match, or nil.\<close>

definition FindStringIndex :: "re_item list \<Rightarrow> string \<Rightarrow> (nat \<times> nat) option" where
  "FindStringIndex r s =
     (case find_from r s 0 of None \<Rightarrow> None | Some (i, j, g) \<Rightarrow> Some (i, j))"

text \<open>
  \<open>regexp.FindStringSubmatch\<close>: the text of the leftmost match followed by the text
  of each group, or nil.
\<close>

definition FindStringSubmatch :: "re_item list \<Rightarrow> string \<Rightarrow> string list option" where
  "FindStringSubmatch r s =
     (case find_from r s 0 of
        None \<Rightarrow> None
      | Some (i, j, g) \<Rightarrow> Some (take (j - i) (drop i s) # g))"

text \<open>The pattern of the split closure in \<open>stream\<close>: \<^verbatim>\<open>[~|#][OUTPUT|DEVICE].+\r\n\<close>.\<close>

definition split_re :: "re_item list" where
  "split_re =
     [One (Chars ''~|#''), One (Chars ''OUTPUT|DEVICE''), Many AnyNoNL] @ lit CRLF"

text \<open>The pattern of \<open>parseDeviceCommand\<close>: \<^verbatim>\<open>[~|#]DEVICE,([^,]+),([^,]+),(.+)\r\n\<close>.\<close>

definition device_re :: "re_item list" where
  "device_re =
     [One (Chars ''~|#'')] @ lit ''DEVICE,'' @ [Capture_Many (NotChars '','')] @ lit '',''
       @ [Capture_Many (NotChars '','')] @ lit '','' @ [Capture_Many AnyNoNL] @ lit CRLF"

text \<open>The pattern of \<open>parseZoneCommand\<close>: \<^verbatim>\<open>[~|?]OUTPUT,([^,]+),([^,]+),(.+)\r\n\<close>.\<close>

definition zone_re :: "re_item list" where
  "zone_re =
     [One (Chars ''~|?'')] @ lit ''OUTPUT,'' @ [Capture_Many (NotChars '','')] @ lit '',''
       @ [Capture_Many (NotChars '','')] @ lit '','' @ [Capture_Many AnyNoNL] @ lit CRLF"

text \<open>\<open>strings.HasPrefix\<close>.\<close>

definition HasPrefix :: "string \<Rightarrow> string \<Rightarrow> bool" where
  "HasPrefix s p = (take (length p) s = p)"

section \<open>Numbers as text\<close>

text \<open>
  An intensity is a float64. A finite float64 is kept with its sign, so that negative
  zero is a value, and with its magnitude, the exact rational the float denotes; the
  other values are the two infinities and NaN.
\<close>

datatype float64 = Finite bool rat | Infinity bool | NaN

text \<open>The last decimal digit of a number, and the decimal digits of a number.\<close>

definition digit :: "int \<Rightarrow> char" where
  "digit n = ''0123456789'' ! nat (n mod 10)"

function show_nat :: "int \<Rightarrow> string" where
  "show_nat n = (if n < 10 then [digit n] else show_nat (n div 10) @ [digit n])"
  by pat_completeness auto
termination
  by (relation "measure nat") auto

declare show_nat.simps [simp del]

text \<open>Rounding a rational to the nearest integer, ties to even.\<close>

definition round_half_even :: "rat \<Rightarrow> int" where
  "round_half_even x =
     (let f = \<lfloor>x\<rfloor>; r = x - of_int f
      in if r < 1 / 2 then f
         else if 1 / 2 < r then f + 1
         else if even f then f else f + 1)"

text \<open>
  \<open>fmt.Sprintf("%.2f", x)\<close>: for a finite value the sign, the integer part, a point and
  exactly two decimals, the exact value rounded to the nearest hundredth, ties to even;
  \<open>+Inf\<close>, \<open>-Inf\<close> and \<open>NaN\<close> for the other values.
\<close>

fun sprintf_2f :: "float64 \<Rightarrow> string" where
  "sprintf_2f NaN = ''NaN''"
| "sprintf_2f (Infinity neg) = (if neg then ''-Inf'' else ''+Inf'')"
| "sprintf_2f (Finite neg m) =
     (let n = round_half_even (m * 100)
      in (if neg then ''-'' else []) @ show_nat (n div 100) @ ''.''
           @ [digit (n div 10), digit n])"

declare sprintf_2f.simps [simp del]

subsection \<open>Rounding to float64\<close>

definition pow2 :: "int \<Rightarrow> rat" where
  "pow2 k = (if 0 \<le> k then 2 ^ nat k else 1 / 2 ^ nat (- k))"

definition pow10 :: "int \<Rightarrow> rat" where
  "pow10 k = (if 0 \<le> k then 10 ^ nat k else 1 / 10 ^ nat (- k))"

text \<open>
  The largest \<open>e\<close> with \<open>2 ^ e \<le> y\<close>, for \<open>1 \<le> y < 2 ^ 2048\<close>, found bit by bit.
\<close>

definition floor_log2 :: "rat \<Rightarrow> nat" where
  "floor_log2 y =
     foldl (\<lambda>e k. if 2 ^ (e + k) \<le> y then e + k else e) 0
       [1024, 512, 256, 128, 64, 32, 16, 8, 4, 2, 1]"

text \<open>
  The magnitude of the float64 nearest to \<open>x \<ge> 0\<close>, ties to the even mantissa: 53 bits
  of mantissa, the least exponent \<open>-1022\<close> (below it the values are \<open>2 ^ -1074\<close> apart).
  \<open>None\<close> when the nearest value would lie beyond the largest finite float64; this is
  the range error of \<open>strconv\<close>.
\<close>

definition nearest_float64 :: "rat \<Rightarrow> rat option" where
  "nearest_float64 x =
     (if x = 0 then Some 0
      else if 2 ^ 1024 \<le> x then None
      else
        let e = (if x < pow2 (- 1022) then - 1022
                 else int (floor_log2 (x * 2 ^ 1022)) - 1022);
            ulp = pow2 (e - 52);
            y = of_int (round_half_even (x / ulp)) * ulp
        in if 2 ^ 1024 \<le> y then None else Some y)"

subsection \<open>strconv.ParseFloat\<close>

definition is_digit :: "char \<Rightarrow> bool" where
  "is_digit c = (48 \<le> (of_char c :: nat) \<and> (of_char c :: nat) \<le> 57)"

definition digit_val :: "char \<Rightarrow> int" where
  "digit_val c = of_char c - 48"

definition is_hex_letter :: "char \<Rightarrow> bool" where
  "is_hex_letter c = (c \<in> set ''abcdefABCDEF'')"

definition hex_letter_val :: "char \<Rightarrow> int" where
  "hex_letter_val c = (if 97 \<le> (of_char c :: nat) then of_char c - 87 else of_char c - 55)"

text \<open>
  \<open>commonPrefixLenIgnoreCase s prefix\<close>, for a lower-case \<open>prefix\<close>: an upper-case
  letter of \<open>s\<close> counts as its lower-case letter.
\<close>

definition same_letter :: "char \<Rightarrow> char \<Rightarrow> bool" where
  "same_letter c p =
     (c = p \<or> (65 \<le> (of_char c :: nat) \<and> (of_char c :: nat) \<le> 90
                \<and> (of_char c :: nat) + 32 = of_char p))"

fun commonPrefixLenIgnoreCase :: "string \<Rightarrow> string \<Rightarrow> nat" where
  "commonPrefixLenIgnoreCase (c # s) (p # prefix) =
     (if same_letter c p then Suc (commonPrefixLenIgnoreCase s prefix) else 0)"
| "commonPrefixLenIgnoreCase s prefix = 0"

text \<open>
  \<open>special\<close>: the texts \<open>inf\<close> and \<open>infinity\<close> with an optional sign, and \<open>nan\<close>,
  in any case of letters. The result is the value and the number of bytes read.
\<close>

definition special :: "string \<Rightarrow> (float64 \<times> nat) option" where
  "special s =
     (case s of
        [] \<Rightarrow> None
      | c # t \<Rightarrow>
          if c = CHR ''+'' \<or> c = CHR ''-'' \<or> c = CHR ''i'' \<or> c = CHR ''I'' then
            let signed = (c = CHR ''+'' \<or> c = CHR ''-'');
                n0 = commonPrefixLenIgnoreCase (if signed then t else s) ''infinity'';
                n = (if 3 < n0 \<and> n0 < 8 then 3 else n0)
            in if n = 3 \<or> n = 8
               then Some (Infinity (c = CHR ''-''), (if signed then 1 else 0) + n)
               else None
          else if c = CHR ''n'' \<or> c = CHR ''N'' then
            if commonPrefixLenIgnoreCase s ''nan'' = 3 then Some (NaN, 3) else None
          else None)"

text \<open>
  The loop of \<open>readFloat\<close> over the mantissa: underscores are skipped and noted, the
  first point fixes the place of the point, leading zeros move it, every other digit
  counts. The loop ends at a second point and at any other byte. The model keeps all
  digits of the mantissa; \<open>strconv\<close> keeps the first ones and rounds from the text, to
  the same float.
\<close>

record mantissa =
  m_underscores :: bool
  m_sawdot :: bool
  m_sawdigits :: bool
  m_nd :: nat
  m_dp :: int
  m_value :: int

fun read_mantissa :: "int \<Rightarrow> string \<Rightarrow> mantissa \<Rightarrow> mantissa \<times> string" where
  "read_mantissa base [] st = (st, [])"
| "read_mantissa base (c # cs) st =
     (if c = CHR ''_'' then read_mantissa base cs (st\<lparr> m_underscores := True \<rparr>)
      else if c = CHR ''.'' then
        (if m_sawdot st then (st, c # cs)
         else read_mantissa base cs (st\<lparr> m_sawdot := True, m_dp := int (m_nd st) \<rparr>))
      else if is_digit c then
        (if c = CHR ''0'' \<and> m_nd st = 0
         then read_mantissa base cs (st\<lparr> m_sawdigits := True, m_dp := m_dp st - 1 \<rparr>)
         else read_mantissa base cs
                (st\<lparr> m_sawdigits := True, m_nd := Suc (m_nd st),
                     m_value := m_value st * base + digit_val c \<rparr>))
      else if base = 16 \<and> is_hex_letter c then
        read_mantissa base cs
          (st\<lparr> m_sawdigits := True, m_nd := Suc (m_nd st),
               m_value := m_value st * 16 + hex_letter_val c \<rparr>)
      else (st, c # cs))"

text \<open>
  The digits of the exponent: underscores are skipped and noted, and the exponent stops
  growing once it has reached 10000. The result is the exponent, whether an underscore
  was seen, and the bytes left.
\<close>

fun read_exponent :: "string \<Rightarrow> int \<Rightarrow> bool \<Rightarrow> int \<times> bool \<times> string" where
  "read_exponent [] e u = (e, u, [])"
| "read_exponent (c # cs) e u =
     (if c = CHR ''_'' then read_exponent cs e True
      else if is_digit c
      then read_exponent cs (if e < 10000 then e * 10 + digit_val c else e) u
      else (e, u, c # cs))"

text \<open>
  \<open>underscoreOK\<close>: an underscore stands between digits, or between a base prefix and a
  digit.
\<close>

datatype saw = SawStart | SawDigit | SawUnderscore | SawOther

fun underscore_scan :: "bool \<Rightarrow> string \<Rightarrow> saw \<Rightarrow> bool" where
  "underscore_scan hex [] saw = (saw \<noteq> SawUnderscore)"
| "underscore_scan hex (c # cs) saw =
     (if is_digit c \<or> (hex \<and> is_hex_letter c) then underscore_scan hex cs SawDigit
      else if c = CHR ''_''
      then (if saw \<noteq> SawDigit then False else underscore_scan hex cs SawUnderscore)
      else if saw = SawUnderscore then False
      else underscore_scan hex cs SawOther)"

definition underscoreOK :: "string \<Rightarrow> bool" where
  "underscoreOK s0 =
     (let s = (case s0 of
                 [] \<Rightarrow> s0
               | c # t \<Rightarrow> if c = CHR ''-'' \<or> c = CHR ''+'' then t else s0)
      in case s of
           c0 # c1 # t \<Rightarrow>
             if c0 = CHR ''0'' \<and> c1 \<in> set ''bBoOxX''
             then underscore_scan (c1 \<in> set ''xX'') t SawDigit
             else underscore_scan False s SawStart
         | _ \<Rightarrow> underscore_scan False s SawStart)"

text \<open>
  The exponent part of \<open>readFloat\<close>, on the bytes after the mantissa: the exponent
  letter (\<open>e\<close>, or \<open>p\<close> for a hexadecimal mantissa, in either case), an optional sign
  and at least one digit. A hexadecimal mantissa must have an exponent. The result is
  the exponent, whether an underscore was seen, and the bytes left; \<open>None\<close> is the
  syntax error.
\<close>

definition read_exp_part :: "bool \<Rightarrow> string \<Rightarrow> (int \<times> bool \<times> string) option" where
  "read_exp_part hex s =
     (case s of
        [] \<Rightarrow> if hex then None else Some (0, False, s)
      | c # t \<Rightarrow>
          if c \<in> set (if hex then ''pP'' else ''eE'') then
            (case t of
               [] \<Rightarrow> None
             | c1 # t1 \<Rightarrow>
                 let digits = (if c1 = CHR ''+'' \<or> c1 = CHR ''-'' then t1 else t)
                 in case digits of
                      [] \<Rightarrow> None
                    | c2 # t2 \<Rightarrow>
                        if \<not> is_digit c2 then None
                        else
                          (case read_exponent digits 0 False of
                             (e, u, rest) \<Rightarrow>
                               Some ((if c1 = CHR ''-'' then - e else e), u, rest)))
          else if hex then None
          else Some (0, False, s))"

text \<open>
  \<open>readFloat\<close>: the sign, whether the mantissa is hexadecimal, the mantissa \<open>m\<close> and
  the exponent \<open>x\<close>, and the number of bytes read. The text denotes
  \<open>m * 10 ^ x\<close>, or \<open>m * 2 ^ x\<close> when the mantissa is hexadecimal.
\<close>

definition readFloat :: "string \<Rightarrow> (bool \<times> bool \<times> int \<times> int \<times> nat) option" where
  "readFloat s =
     (case s of
        [] \<Rightarrow> None
      | c # t \<Rightarrow>
          let neg = (c = CHR ''-'');
              s1 = (if c = CHR ''+'' \<or> c = CHR ''-'' then t else s);
              hex = (2 < length s1 \<and> s1 ! 0 = CHR ''0'' \<and> s1 ! 1 \<in> set ''xX'');
              s2 = (if hex then drop 2 s1 else s1)
          in case read_mantissa (if hex then 16 else 10) s2
                    \<lparr> m_underscores = False, m_sawdot = False, m_sawdigits = False,
                      m_nd = 0, m_dp = 0, m_value = 0 \<rparr> of
               (st, s3) \<Rightarrow>
                 if \<not> m_sawdigits st then None
                 else
                   let dp = (if m_sawdot st then m_dp st else int (m_nd st));
                       scale = (if hex then 4 else 1)
                   in case read_exp_part hex s3 of
                        None \<Rightarrow> None
                      | Some (e, u, rest) \<Rightarrow>
                          let n = length s - length rest
                          in if (m_underscores st \<or> u) \<and> \<not> underscoreOK (take n s)
                             then None
                             else Some (neg, hex, m_value st,
                                        dp * scale + e - int (m_nd st) * scale, n))"

text \<open>
  \<open>strconv.ParseFloat(s, 64)\<close>: the whole text must be read; the value is the float64
  nearest to the number that the text denotes; \<open>None\<close> is the error (of syntax, or of
  range).
\<close>

definition ParseFloat :: "string \<Rightarrow> float64 option" where
  "ParseFloat s =
     (case special s of
        Some (v, n) \<Rightarrow> if n = length s then Some v else None
      | None \<Rightarrow>
          (case readFloat s of
             None \<Rightarrow> None
           | Some (neg, hex, m, x, n) \<Rightarrow>
               if n \<noteq> length s then None
               else
                 (case nearest_float64 (of_int m * (if hex then pow2 x else pow10 x)) of
                    None \<Rightarrow> None
                  | Some y \<Rightarrow> Some (Finite neg y))))"

section \<open>Data model\<close>

text \<open>
  Modelled from the spec: the types \<open>Button\<close>, \<open>Zone\<close>, \<open>StringCommand\<close> and
  \<open>CommandType\<close> are declared in files that are not among the sources. The spec gives
  a zone and a button a local id, and device.go reads the fields below; the command
  types are the four that device.go names.
\<close>

record Button =
  b_LocalID :: string
  b_GlobalID :: string
  b_Name :: string

record Zone =
  z_LocalID :: string
  z_GlobalID :: string
  z_Name :: string

text \<open>
  The tables \<open>Buttons\<close>, \<open>Devices\<close> and \<open>Zones\<close> of a device are Go maps from local
  ids to pointers; a missing key reads as nil, here \<open>None\<close>.
\<close>

datatype Device = MkDevice
  (d_LocalID: string)
  (d_GlobalID: string)
  (d_Name: string)
  (d_Description: string)
  (d_Buttons: "string \<Rightarrow> Button option")
  (d_Devices: "string \<Rightarrow> Device option")
  (d_Zones: "string \<Rightarrow> Zone option")

datatype CommandType = CTUnknown | CTZoneSetLevel | CTDevicePressButton | CTDeviceReleaseButton

record StringCommand =
  c_Device :: "Device option"
  c_Friendly :: string
  c_Value :: string
  c_Type :: CommandType

record commandBuilderParams =
  p_CommandType :: CommandType
  p_Zone :: "Zone option"
  p_Intensity :: float64
  p_Device :: "Device option"
  p_SourceDevice :: "Device option"
  p_Button :: "Button option"

text \<open>
  A run-time panic of Go is a value of the model: reading through a nil pointer, slicing
  beyond the capacity of a slice, sending on a closed channel.
\<close>

datatype panic = NilDereference | SliceBounds | SendOnClosedChannel

text \<open>The second result of the parsers, an \<open>interface{}\<close> holding a zone or a button pointer.\<close>

datatype source = SrcZone Zone | SrcButton "Button option"

definition DQ :: char where
  "DQ = CHR 0x22"

section \<open>CommandTranslator: buildCommand and the parsers\<close>

text \<open>
  \<open>buildCommand\<close>. The zone, the source device and the button are pointers that the
  function reads without a nil check. The default case returns a nil command.
\<close>

definition buildCommand :: "commandBuilderParams \<Rightarrow> panic + StringCommand option" where
  "buildCommand p =
     (case p_CommandType p of
        CTZoneSetLevel \<Rightarrow>
          (case p_Zone p of
             None \<Rightarrow> Inl NilDereference
           | Some z \<Rightarrow>
               Inr (Some \<lparr>
                 c_Device = p_Device p,
                 c_Friendly = ''Zone ['' @ z_GlobalID z @ ''] '' @ [DQ] @ z_Name z @ [DQ]
                   @ '' set to '' @ sprintf_2f (p_Intensity p) @ ''%'',
                 c_Value = ''#OUTPUT,'' @ z_LocalID z @ '',1,'' @ sprintf_2f (p_Intensity p) @ CRLF,
                 c_Type = p_CommandType p \<rparr>))
      | CTDevicePressButton \<Rightarrow>
          (case (p_SourceDevice p, p_Button p) of
             (Some sd, Some b) \<Rightarrow>
               Inr (Some \<lparr>
                 c_Device = p_Device p,
                 c_Friendly = ''Device ['' @ d_GlobalID sd @ ''] '' @ [DQ] @ d_Name sd @ [DQ]
                   @ '' press button '' @ b_LocalID b @ '' ['' @ b_GlobalID b @ '']'',
                 c_Value = ''#DEVICE,'' @ d_Name sd @ '','' @ b_LocalID b @ '',3'' @ CRLF,
                 c_Type = p_CommandType p \<rparr>)
           | _ \<Rightarrow> Inl NilDereference)
      | CTDeviceReleaseButton \<Rightarrow>
          (case (p_SourceDevice p, p_Button p) of
             (Some sd, Some b) \<Rightarrow>
               Inr (Some \<lparr>
                 c_Device = p_Device p,
                 c_Friendly = ''Device ['' @ d_GlobalID sd @ ''] '' @ [DQ] @ d_Name sd @ [DQ]
                   @ '' release button '' @ b_LocalID b @ '' ['' @ b_GlobalID b @ '']'',
                 c_Value = ''#DEVICE,'' @ d_Name sd @ '','' @ b_LocalID b @ '',4'' @ CRLF,
                 c_Type = p_CommandType p \<rparr>)
           | _ \<Rightarrow> Inl NilDereference)
      | _ \<Rightarrow> Inr None)"

text \<open>
  \<open>parseDeviceCommand\<close>: the command and its source, \<open>(None, None)\<close> for the Go result
  \<open>nil, nil\<close>.
\<close>

definition parseDeviceCommand ::
  "Device \<Rightarrow> string \<Rightarrow> panic + (StringCommand option \<times> source option)" where
  "parseDeviceCommand d cmd =
     (case FindStringSubmatch device_re cmd of
        None \<Rightarrow> Inr (None, None)
      | Some matches \<Rightarrow>
          if length matches \<noteq> 4 then Inr (None, None)
          else
            let deviceID = matches ! 1; componentID = matches ! 2; cmdID = matches ! 3
            in case d_Devices d deviceID of
                 None \<Rightarrow> Inr (None, None)
               | Some sourceDevice \<Rightarrow>
                   let (ct, btn) =
                         (if cmdID = ''3'' then (CTDevicePressButton, d_Buttons sourceDevice componentID)
                          else if cmdID = ''4'' then (CTDeviceReleaseButton, d_Buttons sourceDevice componentID)
                          else (CTUnknown, None))
                   in case buildCommand \<lparr>
                             p_CommandType = ct, p_Zone = None, p_Intensity = Finite False 0,
                             p_Device = Some d, p_SourceDevice = Some sourceDevice,
                             p_Button = btn \<rparr> of
                        Inl e \<Rightarrow> Inl e
                      | Inr c \<Rightarrow> Inr (c, Some (SrcButton btn)))"

text \<open>\<open>parseZoneCommand\<close>.\<close>

definition parseZoneCommand ::
  "Device \<Rightarrow> string \<Rightarrow> panic + (StringCommand option \<times> source option)" where
  "parseZoneCommand d cmd =
     (case FindStringSubmatch zone_re cmd of
        None \<Rightarrow> Inr (None, None)
      | Some matches \<Rightarrow>
          if length matches \<noteq> 4 then Inr (None, None)
          else
            let zoneID = matches ! 1; cmdID = matches ! 2
            in case ParseFloat (matches ! 3) of
                 None \<Rightarrow> Inr (None, None)
               | Some intensity \<Rightarrow>
                   (case d_Zones d zoneID of
                      None \<Rightarrow> Inr (None, None)
                    | Some z \<Rightarrow>
                        let ct = (if cmdID = ''1'' then CTZoneSetLevel else CTUnknown)
                        in case buildCommand \<lparr>
                                  p_CommandType = ct, p_Zone = Some z, p_Intensity = intensity,
                                  p_Device = Some d, p_SourceDevice = None, p_Button = None \<rparr> of
                             Inl e \<Rightarrow> Inl e
                           | Inr c \<Rightarrow> Inr (c, Some (SrcZone z))))"

text \<open>\<open>parseCommandString\<close>: the dispatch on the leading keyword.\<close>

definition parseCommandString ::
  "Device \<Rightarrow> string \<Rightarrow> panic + (StringCommand option \<times> source option)" where
  "parseCommandString d cmd =
     (if HasPrefix cmd ''~OUTPUT'' \<or> HasPrefix cmd ''#OUTPUT'' then parseZoneCommand d cmd
      else if HasPrefix cmd ''~DEVICE'' \<or> HasPrefix cmd ''#DEVICE'' then parseDeviceCommand d cmd
      else Inr (None, None))"

section \<open>ProtocolStreamer: the split function, the scanner, stream\<close>

subsection \<open>Runes\<close>

text \<open>
  The split closure cuts the token out of \<open>[]rune(str)\<close> with the byte offsets of
  the match and converts the runes back to bytes. \<open>decoderune\<close> is the decoding step of
  that conversion (the code point and the number of bytes read; a byte that starts no
  valid UTF-8 sequence is the rune U+FFFD of width one), \<open>encoderune\<close> the encoding
  step of the conversion back.
\<close>

definition is_cont :: "char \<Rightarrow> bool" where
  "is_cont c = (0x80 \<le> (of_char c :: nat) \<and> (of_char c :: nat) \<le> 0xBF)"

definition low6 :: "char \<Rightarrow> nat" where
  "low6 c = of_char c mod 64"

definition decoderune :: "string \<Rightarrow> nat \<times> nat" where
  "decoderune s =
     (case s of
        [] \<Rightarrow> (0xFFFD, 1)
      | c0 # t \<Rightarrow>
          let b0 = (of_char c0 :: nat)
          in if b0 < 0x80 then (b0, 1)
             else if 0xC0 \<le> b0 \<and> b0 < 0xE0 then
               (case t of
                  c1 # _ \<Rightarrow>
                    let r = (b0 mod 32) * 64 + low6 c1
                    in if is_cont c1 \<and> 0x7F < r then (r, 2) else (0xFFFD, 1)
                | _ \<Rightarrow> (0xFFFD, 1))
             else if 0xE0 \<le> b0 \<and> b0 < 0xF0 then
               (case t of
                  c1 # c2 # _ \<Rightarrow>
                    let r = (b0 mod 16) * 4096 + low6 c1 * 64 + low6 c2
                    in if is_cont c1 \<and> is_cont c2 \<and> 0x7FF < r \<and> \<not> (0xD800 \<le> r \<and> r \<le> 0xDFFF)
                       then (r, 3) else (0xFFFD, 1)
                | _ \<Rightarrow> (0xFFFD, 1))
             else if 0xF0 \<le> b0 \<and> b0 < 0xF8 then
               (case t of
                  c1 # c2 # c3 # _ \<Rightarrow>
                    let r = (b0 mod 8) * 262144 + low6 c1 * 4096 + low6 c2 * 64 + low6 c3
                    in if is_cont c1 \<and> is_cont c2 \<and> is_cont c3 \<and> 0xFFFF < r \<and> r \<le> 0x10FFFF
                       then (r, 4) else (0xFFFD, 1)
                | _ \<Rightarrow> (0xFFFD, 1))
             else (0xFFFD, 1))"

definition encoderune :: "nat \<Rightarrow> string" where
  "encoderune r =
     (if r \<le> 0x7F then [char_of r]
      else if r \<le> 0x7FF then [char_of (0xC0 + r div 64), char_of (0x80 + r mod 64)]
      else if 0x10FFFF < r \<or> (0xD800 \<le> r \<and> r \<le> 0xDFFF) then
        [char_of (0xEF :: nat), char_of (0xBF :: nat), char_of (0xBD :: nat)]
      else if r \<le> 0xFFFF then
        [char_of (0xE0 + r div 4096), char_of (0x80 + r div 64 mod 64), char_of (0x80 + r mod 64)]
      else
        [char_of (0xF0 + r div 262144), char_of (0x80 + r div 4096 mod 64),
         char_of (0x80 + r div 64 mod 64), char_of (0x80 + r mod 64)])"

text \<open>\<open>[]rune(s)\<close>, by recursion on the bytes that are left.\<close>

function runes :: "string \<Rightarrow> nat list" where
  "runes s =
     (if s = [] then []
      else fst (decoderune s) # runes (drop (max 1 (snd (decoderune s))) s))"
  by pat_completeness auto
termination
  by (relation "measure length") auto

declare runes.simps [simp del]

subsection \<open>The split closure\<close>

text \<open>
  The result of the closure is \<open>(advance, token, err)\<close> with \<open>err\<close> always nil; the model
  returns the advance and the token, \<open>None\<close> for the nil token. The closure does not
  read \<open>atEOF\<close>.

  The match offsets count bytes, the slice \<open>[]rune(str)[i0:i1]\<close> counts runes. Go
  bounds a slice expression by the capacity of the slice, not by its length: beyond the
  runes of the text the slice reads the spare capacity, which the conversion has set to
  zero, and beyond the capacity it panics. The capacity of a rune slice of \<open>n\<close> runes
  is the choice of the Go runtime; it is the parameter \<open>cap\<close> of the model, and a
  value below \<open>n\<close> stands for no spare capacity.
\<close>

definition split :: "(nat \<Rightarrow> nat) \<Rightarrow> string \<Rightarrow> panic + (nat \<times> string option)" where
  "split cap data =
     (case FindStringIndex split_re data of
        Some (i0, i1) \<Rightarrow>
          let rs = runes data;
              backing = rs @ replicate (cap (length rs) - length rs) 0
          in if i1 \<le> length backing
             then Inr (i1, Some (concat (map encoderune (take (i1 - i0) (drop i0 backing)))))
             else Inl SliceBounds
      | None \<Rightarrow> Inr (0, None))"

subsection \<open>bufio.Scanner\<close>

text \<open>
  What a connection delivers during one streaming cycle: the byte chunks returned by the
  successive reads that return data, and how reading ends (end of file, or an I/O error).
\<close>

datatype read_end = EOF | ReadFailed

record conn_script =
  chunks :: "string list"
  ending :: read_end

datatype scan_err = ErrTooLong | ErrRead

datatype scan_end = ScanDone "scan_err option" | ScanPanic panic | ScanNoProgress

definition MaxScanTokenSize :: nat where
  "MaxScanTokenSize = 64 * 1024"

text \<open>
  \<open>drain cap buf\<close> is the sequence of calls of \<open>Scan\<close> that need no read: while the split
  function finds a token in the unread bytes, the token is handed out and the buffer
  advances. The result is the tokens and the unread bytes left, or the panic of the split
  function. A token with advance zero would be handed out again and again
  (\<open>ScanNoProgress\<close>); the split closure never returns one.
\<close>

function drain :: "(nat \<Rightarrow> nat) \<Rightarrow> string \<Rightarrow> string list \<times> (scan_end + string)" where
  "drain cap buf =
     (case split cap buf of
        Inl p \<Rightarrow> ([], Inl (ScanPanic p))
      | Inr (adv, None) \<Rightarrow> ([], Inr (drop adv buf))
      | Inr (adv, Some tok) \<Rightarrow>
          if adv = 0 \<or> buf = [] then ([tok], Inl ScanNoProgress)
          else (case drain cap (drop adv buf) of (ts, r) \<Rightarrow> (tok # ts, r)))"
  by pat_completeness auto
termination
  by (relation "measure (\<lambda>(cap, buf). length buf)") auto

declare drain.simps [simp del]

text \<open>
  The scanner over a script, from the unread bytes \<open>buf\<close>: hand out what the buffer
  holds; then, if the buffer is full at its maximal size, stop with \<open>ErrTooLong\<close>,
  before any further read; otherwise read: the next chunk, or, when the reads are over,
  the end, which stops the scanner with the error of the last read (none at end of
  file). The result is the tokens in the order of \<open>Scan\<close> and how the scanner stopped.
\<close>

fun scan :: "(nat \<Rightarrow> nat) \<Rightarrow> string \<Rightarrow> string list \<Rightarrow> read_end \<Rightarrow> string list \<times> scan_end" where
  "scan cap buf [] e =
     (case drain cap buf of
        (ts, Inl stop) \<Rightarrow> (ts, stop)
      | (ts, Inr rest) \<Rightarrow>
          if MaxScanTokenSize \<le> length rest then (ts, ScanDone (Some ErrTooLong))
          else (ts, ScanDone (if e = EOF then None else Some ErrRead)))"
| "scan cap buf (c # cs) e =
     (case drain cap buf of
        (ts, Inl stop) \<Rightarrow> (ts, stop)
      | (ts, Inr rest) \<Rightarrow>
          if MaxScanTokenSize \<le> length rest then (ts, ScanDone (Some ErrTooLong))
          else (case scan cap (rest @ c) cs e of (ts', stop) \<Rightarrow> (ts @ ts', stop)))"

subsection \<open>Events, channels and the connection pool\<close>

text \<open>
  Modelled from the spec: \<open>Event\<close> and \<open>NewEvent\<close> are not among the sources. The
  spec's event holds the source device, the parsed command, the raw frame text, a
  classification tag and a timestamp; the model keeps what \<open>stream\<close> passes to
  \<open>NewEvent\<close> and leaves the timestamp out.
\<close>

datatype EventType = ETUnknown

record Event =
  e_Device :: Device
  e_Command :: StringCommand
  e_Orig :: string
  e_Type :: EventType
  e_Source :: "source option"

definition NewEvent ::
  "Device \<Rightarrow> StringCommand \<Rightarrow> string \<Rightarrow> EventType \<Rightarrow> source option \<Rightarrow> Event" where
  "NewEvent d cmd orig t src =
     \<lparr> e_Device = d, e_Command = cmd, e_Orig = orig, e_Type = t, e_Source = src \<rparr>"

text \<open>
  A Go channel: whether it has been closed, and the values sent on it so far. The
  channels of a device are unbuffered.
\<close>

record 'a chan_state =
  ch_closed :: bool
  ch_sent :: "'a list"

definition new_chan :: "'a chan_state" where
  "new_chan = \<lparr> ch_closed = False, ch_sent = [] \<rparr>"

text \<open>
  A receive that waits on a channel since the channel was made completes when a value is
  sent on the channel or the channel is closed, and only then.
\<close>

definition can_receive :: "'a chan_state \<Rightarrow> bool" where
  "can_receive ch = (ch_closed ch \<or> ch_sent ch \<noteq> [])"

type_synonym conn = nat

text \<open>
  Modelled from the spec: the package \<open>comm\<close> with its connection pool is not among the
  sources. The spec gives the pool the operations \<open>acquire() -> Connection | Error\<close>,
  which does not block without bound, and \<open>release(Connection)\<close>. The model keeps the
  idle connections and, as a history, every connection handed out and every connection
  given back.
\<close>

record pool =
  idle :: "conn list"
  handed_out :: "conn list"
  given_back :: "conn list"

definition pool_Get :: "pool \<Rightarrow> conn option \<times> pool" where
  "pool_Get p =
     (case idle p of
        [] \<Rightarrow> (None, p)
      | c # cs \<Rightarrow> (Some c, p\<lparr> idle := cs, handed_out := handed_out p @ [c] \<rparr>))"

definition pool_Release :: "conn \<Rightarrow> pool \<Rightarrow> pool" where
  "pool_Release c p = p\<lparr> idle := idle p @ [c], given_back := given_back p @ [c] \<rparr>"

definition NewConnectionPool :: "nat \<Rightarrow> pool" where
  "NewConnectionPool n = \<lparr> idle = [0 ..< n], handed_out = [], given_back = [] \<rparr>"

subsection \<open>A device at run time\<close>

text \<open>
  The fields of \<open>Device\<close> that change at run time, the channels they point to, and what
  the environment of the streaming loop holds: the seconds slept so far, the number of
  streaming cycles started, the number of streaming goroutines, the bytes written to the
  connections, whether the device has been removed from the system, and the capacity
  that the Go runtime gives to a rune slice of a given length. The removal is the
  cancellation signal of the spec; it is set by the environment.
\<close>

record dstate =
  device :: Device
  ci_Stream :: bool
  ci_PoolSize :: nat
  ci_Login :: string
  ci_Password :: string
  evpDone :: "nat option"
  evpFire :: "nat option"
  dpool :: "pool option"
  bool_chans :: "nat \<Rightarrow> bool chan_state"
  event_chans :: "nat \<Rightarrow> Event chan_state"
  next_chan :: nat
  streamers :: nat
  attempts :: nat
  clock :: nat
  written :: "(conn \<times> string) list"
  removed :: bool
  runecap :: "nat \<Rightarrow> nat"

datatype error =
    ConnectFailed
  | UnableToConnect
  | StreamingStopped scan_err
  | AuthLoginFailed
  | AuthWriteLoginFailed
  | AuthPasswordFailed
  | PingFailed

text \<open>\<open>NewDevice\<close>: the tables start empty, the channels and the pool are nil.\<close>

definition NewDevice :: "string \<Rightarrow> string \<Rightarrow> string \<Rightarrow> string \<Rightarrow> dstate" where
  "NewDevice localID globalID name description =
     \<lparr> device = MkDevice localID globalID name description Map.empty Map.empty Map.empty,
       ci_Stream = False, ci_PoolSize = 0, ci_Login = [], ci_Password = [],
       evpDone = None, evpFire = None, dpool = None,
       bool_chans = (\<lambda>_. new_chan), event_chans = (\<lambda>_. new_chan), next_chan = 0,
       streamers = 0, attempts = 0, clock = 0, written = [], removed = False,
       runecap = (\<lambda>n. n) \<rparr>"

text \<open>\<open>InitConnections\<close>.\<close>

definition InitConnections :: "dstate \<Rightarrow> dstate" where
  "InitConnections s = s\<lparr> dpool := Some (NewConnectionPool (ci_PoolSize s)) \<rparr>"

text \<open>\<open>Connect\<close>. The pool is a nil interface before \<open>InitConnections\<close>.\<close>

definition Connect :: "dstate \<Rightarrow> (panic + error + conn) \<times> dstate" where
  "Connect s =
     (case dpool s of
        None \<Rightarrow> (Inl NilDereference, s)
      | Some p \<Rightarrow>
          (case pool_Get p of
             (None, p') \<Rightarrow> (Inr (Inl ConnectFailed), s\<lparr> dpool := Some p' \<rparr>)
           | (Some c, p') \<Rightarrow> (Inr (Inr c), s\<lparr> dpool := Some p' \<rparr>)))"

text \<open>\<open>ReleaseConnection\<close>.\<close>

definition ReleaseConnection :: "conn \<Rightarrow> dstate \<Rightarrow> panic option \<times> dstate" where
  "ReleaseConnection c s =
     (case dpool s of
        None \<Rightarrow> (Some NilDereference, s)
      | Some p \<Rightarrow> (None, s\<lparr> dpool := Some (pool_Release c p) \<rparr>))"

text \<open>
  A send on an event channel. The send blocks until a receiver takes the value; the
  model lets the receiver take it. A send on a closed channel panics.
\<close>

definition send_event :: "nat \<Rightarrow> Event \<Rightarrow> dstate \<Rightarrow> panic + dstate" where
  "send_event ch e s =
     (if ch_closed (event_chans s ch) then Inl SendOnClosedChannel
      else Inr (s\<lparr> event_chans := (event_chans s)
              (ch := (event_chans s ch)\<lparr> ch_sent := ch_sent (event_chans s ch) @ [e] \<rparr>) \<rparr>))"

subsection \<open>stream\<close>

text \<open>
  The body of the \<open>for scanner.Scan()\<close> loop, over the tokens the scanner hands out:
  with \<open>evpFire\<close> set, the token is parsed, and a non-nil command is sent as an event
  on \<open>evpFire\<close>. A panic ends the loop.
\<close>

fun process_tokens :: "string list \<Rightarrow> dstate \<Rightarrow> panic option \<times> dstate" where
  "process_tokens [] s = (None, s)"
| "process_tokens (orig # ts) s =
     (case evpFire s of
        None \<Rightarrow> process_tokens ts s
      | Some ch \<Rightarrow>
          (case parseCommandString (device s) orig of
             Inl p \<Rightarrow> (Some p, s)
           | Inr (None, src) \<Rightarrow> process_tokens ts s
           | Inr (Some cmd, src) \<Rightarrow>
               (case send_event ch (NewEvent (device s) cmd orig ETUnknown src) s of
                  Inl p \<Rightarrow> (Some p, s)
                | Inr s' \<Rightarrow> process_tokens ts s')))"

text \<open>
  How a call of \<open>stream\<close> ends: it returns (with an error or nil), it panics, or it
  does not return.
\<close>

datatype outcome = Returned "error option" | Panicked panic | NoReturn

text \<open>The part of \<open>stream\<close> after the \<open>defer\<close> statement.\<close>

definition stream_body :: "conn_script \<Rightarrow> dstate \<Rightarrow> outcome \<times> dstate" where
  "stream_body sc s =
     (case scan (runecap s) [] (chunks sc) (ending sc) of
        (tokens, stop) \<Rightarrow>
          (case process_tokens tokens s of
             (Some p, s') \<Rightarrow> (Panicked p, s')
           | (None, s') \<Rightarrow>
               (case stop of
                  ScanPanic p \<Rightarrow> (Panicked p, s')
                | ScanNoProgress \<Rightarrow> (NoReturn, s')
                | ScanDone None \<Rightarrow> (Returned None, s')
                | ScanDone (Some e) \<Rightarrow> (Returned (Some (StreamingStopped e)), s'))))"

text \<open>
  \<open>stream\<close>. A failed \<open>Connect\<close> returns before the \<open>defer\<close> statement. After it, the
  deferred \<open>ReleaseConnection\<close> runs when the body returns and when it panics.
\<close>

definition stream :: "conn_script \<Rightarrow> dstate \<Rightarrow> outcome \<times> dstate" where
  "stream sc s =
     (case Connect s of
        (Inl p, s1) \<Rightarrow> (Panicked p, s1)
      | (Inr (Inl err), s1) \<Rightarrow> (Returned (Some UnableToConnect), s1)
      | (Inr (Inr conn), s1) \<Rightarrow>
          (case stream_body sc s1 of
             (NoReturn, s2) \<Rightarrow> (NoReturn, s2)
           | (r, s2) \<Rightarrow>
               (case ReleaseConnection conn s2 of
                  (Some p, s3) \<Rightarrow> (Panicked p, s3)
                | (None, s3) \<Rightarrow> (r, s3))))"

subsection \<open>startStreaming\<close>

definition Sleep :: "nat \<Rightarrow> dstate \<Rightarrow> dstate" where
  "Sleep seconds s = s\<lparr> clock := clock s + seconds \<rparr>"

text \<open>
  One turn of the \<open>for\<close> loop of \<open>startStreaming\<close>: a call of \<open>stream\<close>, on what the
  connection delivers in this attempt, and \<open>time.Sleep(10 * time.Second)\<close>. The error of
  \<open>stream\<close> is logged and dropped. A panic of \<open>stream\<close> is not recovered.
\<close>

definition cycle :: "(nat \<Rightarrow> conn_script) \<Rightarrow> dstate \<Rightarrow> outcome \<times> dstate" where
  "cycle scripts s =
     (case stream (scripts (attempts s)) (s\<lparr> attempts := Suc (attempts s) \<rparr>) of
        (Returned err, s') \<Rightarrow> (Returned None, Sleep 10 s')
      | (r, s') \<Rightarrow> (r, s'))"

definition returned :: "outcome \<Rightarrow> bool" where
  "returned r = (case r of Returned _ \<Rightarrow> True | _ \<Rightarrow> False)"

definition no_return :: "outcome \<Rightarrow> bool" where
  "no_return r = (r = NoReturn)"

text \<open>
  \<open>startStreaming\<close>: the loop has no exit. The value \<open>None\<close> says that the call does
  not return; the only other end is the panic of a cycle, with the state it leaves.
\<close>

partial_function (option) startStreaming :: "(nat \<Rightarrow> conn_script) \<Rightarrow> dstate \<Rightarrow> (panic \<times> dstate) option" where
  "startStreaming scripts s =
     (if returned (fst (cycle scripts s)) then startStreaming scripts (snd (cycle scripts s))
      else if no_return (fst (cycle scripts s)) then None
      else Some (case fst (cycle scripts s) of Panicked p \<Rightarrow> p, snd (cycle scripts s)))"

text \<open>The first \<open>n\<close> turns of the loop, as long as each call of \<open>stream\<close> returns.\<close>

fun cycles :: "nat \<Rightarrow> (nat \<Rightarrow> conn_script) \<Rightarrow> dstate \<Rightarrow> outcome \<times> dstate" where
  "cycles 0 scripts s = (Returned None, s)"
| "cycles (Suc n) scripts s =
     (case cycle scripts s of
        (Returned err, s') \<Rightarrow> cycles n scripts s'
      | (r, s') \<Rightarrow> (r, s'))"

subsection \<open>The operations of a device\<close>

text \<open>
  \<open>StartProducingEvents\<close>: two fresh channels; with \<open>ConnectionInfo.Stream\<close> one more
  goroutine runs \<open>startStreaming\<close>. The result is \<open>(evpFire, evpDone)\<close>.
\<close>

definition StartProducingEvents :: "dstate \<Rightarrow> (nat \<times> nat) \<times> dstate" where
  "StartProducingEvents s =
     (let dn = next_chan s; fr = Suc (next_chan s);
          s1 = s\<lparr> evpDone := Some dn, evpFire := Some fr,
                  bool_chans := (bool_chans s)(dn := new_chan),
                  event_chans := (event_chans s)(fr := new_chan),
                  next_chan := next_chan s + 2 \<rparr>;
          s2 = (if ci_Stream s1 then s1\<lparr> streamers := Suc (streamers s1) \<rparr> else s1)
      in ((fr, dn), s2))"

text \<open>
  \<open>Authenticate\<close>, on what the connection does: whether each of the two reads up to a
  colon and each of the two writes succeeds.
\<close>

record auth_io =
  login_prompt :: bool
  login_write :: bool
  password_prompt :: bool
  password_write :: bool

definition Authenticate :: "conn \<Rightarrow> auth_io \<Rightarrow> dstate \<Rightarrow> error option \<times> dstate" where
  "Authenticate c io s =
     (if \<not> login_prompt io then (Some AuthLoginFailed, s)
      else if \<not> login_write io then (Some AuthWriteLoginFailed, s)
      else
        let s1 = s\<lparr> written := written s @ [(c, ci_Login s @ CRLF)] \<rparr>
        in if \<not> password_prompt io then (Some AuthPasswordFailed, s1)
           else if \<not> password_write io then (Some AuthPasswordFailed, s1)
           else (None, s1\<lparr> written := written s1 @ [(c, ci_Password s @ CRLF)] \<rparr>))"

text \<open>The ping callback that \<open>InitConnections\<close> gives to each connection.\<close>

definition ping :: "conn \<Rightarrow> bool \<Rightarrow> dstate \<Rightarrow> error option \<times> dstate" where
  "ping c ok s =
     (if ok then (None, s\<lparr> written := written s @ [(c, ''#PING'' @ CRLF)] \<rparr>)
      else (Some PingFailed, s))"

text \<open>
  The steps a device takes: a call of one of its methods, a ping, or one turn of the loop
  of a running \<open>startStreaming\<close> goroutine.
\<close>

datatype dev_op =
    Op_InitConnections
  | Op_Connect
  | Op_ReleaseConnection conn
  | Op_StartProducingEvents
  | Op_Authenticate conn auth_io
  | Op_Ping conn bool
  | Op_StreamingTurn "nat \<Rightarrow> conn_script"

text \<open>
  One step. The result holds the \<open>evpDone\<close> channels handed to callers by this step.
  A panic ends the program.
\<close>

definition apply_op :: "dev_op \<Rightarrow> dstate \<Rightarrow> panic + (nat list \<times> dstate)" where
  "apply_op op s =
     (case op of
        Op_InitConnections \<Rightarrow> Inr ([], InitConnections s)
      | Op_Connect \<Rightarrow>
          (case Connect s of (Inl p, s') \<Rightarrow> Inl p | (Inr r, s') \<Rightarrow> Inr ([], s'))
      | Op_ReleaseConnection c \<Rightarrow>
          (case ReleaseConnection c s of (Some p, s') \<Rightarrow> Inl p | (None, s') \<Rightarrow> Inr ([], s'))
      | Op_StartProducingEvents \<Rightarrow>
          (case StartProducingEvents s of ((fr, dn), s') \<Rightarrow> Inr ([dn], s'))
      | Op_Authenticate c io \<Rightarrow> Inr ([], snd (Authenticate c io s))
      | Op_Ping c ok \<Rightarrow> Inr ([], snd (ping c ok s))
      | Op_StreamingTurn scripts \<Rightarrow>
          if streamers s = 0 then Inr ([], s)
          else (case cycle scripts s of
                  (Panicked p, s') \<Rightarrow> Inl p
                | (r, s') \<Rightarrow> Inr ([], s')))"

text \<open>
  A run of steps from a state: the \<open>evpDone\<close> channels handed out, the last state, and
  the panic that ended the run, if any.
\<close>

fun run_ops :: "dev_op list \<Rightarrow> dstate \<Rightarrow> nat list \<times> dstate \<times> panic option" where
  "run_ops [] s = ([], s, None)"
| "run_ops (op # ops) s =
     (case apply_op op s of
        Inl p \<Rightarrow> ([], s, Some p)
      | Inr (dones, s') \<Rightarrow>
          (case run_ops ops s' of (dones', s'', p) \<Rightarrow> (dones @ dones', s'', p)))"

section \<open>AutomationEngine: Recipe\<close>

record Recipe =
  r_ID :: string
  r_Name :: string
  r_Description :: string
  r_Version :: string
  r_enabled :: bool

text \<open>\<open>NewRecipe\<close>, with the identifier that \<open>uuid.NewV4\<close> returned.\<close>

definition NewRecipe :: "string \<Rightarrow> string \<Rightarrow> string \<Rightarrow> bool \<Rightarrow> Recipe" where
  "NewRecipe uuid name description enabled =
     \<lparr> r_ID = uuid, r_Name = name, r_Description = description, r_Version = ''1'',
       r_enabled = enabled \<rparr>"


definition SetEnabled :: "bool \<Rightarrow> Recipe \<Rightarrow> Recipe" where
  "SetEnabled enabled r = r\<lparr> r_enabled := enabled \<rparr>"

definition EventConsumerID :: "Recipe \<Rightarrow> string" where
  "EventConsumerID r = r_Name r @ '' - '' @ r_ID r"

text \<open>
  \<open>Trigger\<close> is an interface whose implementations are not part of recipe.go: what
  \<open>Init\<close> returns (whether the \<open>fire\<close> channel is non-nil, and
  \<open>triggerProcessesEvents\<close>), and \<open>ProcessEvent\<close> as a function of the trigger's own
  state, which starts at \<open>t_init\<close>.
\<close>

record 'ts Trigger =
  t_fire :: bool
  t_processesEvents :: bool
  t_ProcessEvent :: "'ts \<Rightarrow> Event \<Rightarrow> bool \<times> 'ts"
  t_init :: 'ts

text \<open>
  The two goroutines of \<open>StartConsumingEvents\<close>. The fire listener waits in its
  \<open>select\<close>, holds a value received from \<open>fire\<close>, is inside \<open>executeAction\<close>, or has
  left its loop; \<open>FL_None\<close> is the case of a nil \<open>fire\<close>, where the goroutine is not
  started. The event listener waits at \<open>range c\<close>, holds an event, has passed the test
  of \<open>r.enabled\<close> and \<open>triggerProcessesEvents\<close> with this event, is inside
  \<open>executeAction\<close>, or has closed \<open>done\<close> and \<open>triggerDone\<close> and ended.
\<close>

datatype fl_pc = FL_None | FL_Select | FL_Got bool | FL_Exec | FL_Exited

datatype el_pc = EL_Range | EL_Got Event | EL_Process Event | EL_Exec | EL_Exited

datatype listener = FireListener | EventListener

datatype exec_error = ActionFailed

text \<open>
  The history of \<open>Action.Execute\<close>: a call begins in a listener, and it returns there,
  with an error or nil.
\<close>

datatype exec_event = Begin listener | End listener "exec_error option"

record 'ts rstate =
  recipe :: Recipe
  trig :: 'ts
  fl :: fl_pc
  el :: el_pc
  c_closed :: bool
  done_closed :: bool
  triggerDone_closed :: bool
  runs :: "exec_event list"

text \<open>\<open>StartConsumingEvents\<close>: the state in which the goroutines start.\<close>

definition StartConsumingEvents :: "'ts Trigger \<Rightarrow> Recipe \<Rightarrow> 'ts rstate" where
  "StartConsumingEvents t r =
     \<lparr> recipe = r, trig = t_init t,
       fl = (if t_fire t then FL_Select else FL_None), el = EL_Range,
       c_closed = False, done_closed = False, triggerDone_closed = False, runs = [] \<rparr>"

text \<open>
  The steps of a started recipe, one at a time in any order (an interleaving of the two
  goroutines and their environment):
  \<^item> \<open>L_SetEnabled b\<close>: a call of \<open>SetEnabled\<close>;
  \<^item> \<open>L_Fire f\<close>: the trigger sends \<open>f\<close> on \<open>fire\<close> and the fire listener receives it;
  \<^item> \<open>L_Event e\<close>: the caller sends \<open>e\<close> on the sink and the event listener receives it;
  \<^item> \<open>L_CloseSink\<close>: the caller closes the sink;
  \<^item> \<open>L_FireListener\<close>, \<open>L_EventListener\<close>: the goroutine runs up to its next
    channel operation or call of \<open>Action.Execute\<close>;
  \<^item> \<open>L_ExecuteReturns l err\<close>: \<open>Action.Execute\<close> returns in the listener \<open>l\<close>;
    \<open>executeAction\<close> logs the error and returns.
  \<open>None\<close> says that the step cannot be taken in the state.
\<close>

datatype label =
    L_SetEnabled bool
  | L_Fire bool
  | L_Event Event
  | L_CloseSink
  | L_FireListener
  | L_EventListener
  | L_ExecuteReturns listener "exec_error option"

definition step :: "'ts Trigger \<Rightarrow> label \<Rightarrow> 'ts rstate \<Rightarrow> 'ts rstate option" where
  "step t l s =
     (case l of
        L_SetEnabled b \<Rightarrow> Some (s\<lparr> recipe := SetEnabled b (recipe s) \<rparr>)
      | L_Fire f \<Rightarrow> if fl s = FL_Select then Some (s\<lparr> fl := FL_Got f \<rparr>) else None
      | L_Event e \<Rightarrow>
          if el s = EL_Range \<and> \<not> c_closed s then Some (s\<lparr> el := EL_Got e \<rparr>) else None
      | L_CloseSink \<Rightarrow> if c_closed s then None else Some (s\<lparr> c_closed := True \<rparr>)
      | L_FireListener \<Rightarrow>
          (case fl s of
             FL_Select \<Rightarrow> if done_closed s then Some (s\<lparr> fl := FL_Exited \<rparr>) else None
           | FL_Got f \<Rightarrow>
               if r_enabled (recipe s) \<and> f
               then Some (s\<lparr> fl := FL_Exec, runs := runs s @ [Begin FireListener] \<rparr>)
               else Some (s\<lparr> fl := FL_Select \<rparr>)
           | _ \<Rightarrow> None)
      | L_EventListener \<Rightarrow>
          (case el s of
             EL_Range \<Rightarrow>
               if c_closed s
               then Some (s\<lparr> el := EL_Exited, done_closed := True, triggerDone_closed := True \<rparr>)
               else None
           | EL_Got e \<Rightarrow>
               if \<not> r_enabled (recipe s) \<or> \<not> t_processesEvents t
               then Some (s\<lparr> el := EL_Range \<rparr>)
               else Some (s\<lparr> el := EL_Process e \<rparr>)
           | EL_Process e \<Rightarrow>
               (case t_ProcessEvent t (trig s) e of
                  (True, ts) \<Rightarrow>
                    Some (s\<lparr> trig := ts, el := EL_Exec, runs := runs s @ [Begin EventListener] \<rparr>)
                | (False, ts) \<Rightarrow> Some (s\<lparr> trig := ts, el := EL_Range \<rparr>))
           | _ \<Rightarrow> None)
      | L_ExecuteReturns who err \<Rightarrow>
          (case who of
             FireListener \<Rightarrow>
               if fl s = FL_Exec
               then Some (s\<lparr> fl := FL_Select, runs := runs s @ [End FireListener err] \<rparr>)
               else None
           | EventListener \<Rightarrow>
               if el s = EL_Exec
               then Some (s\<lparr> el := EL_Range, runs := runs s @ [End EventListener err] \<rparr>)
               else None))"

fun run :: "'ts Trigger \<Rightarrow> label list \<Rightarrow> 'ts rstate \<Rightarrow> 'ts rstate option" where
  "run t [] s = Some s"
| "run t (l # ls) s = (case step t l s of None \<Rightarrow> None | Some s' \<Rightarrow> run t ls s')"

text \<open>
  Reading a history: \<open>track\<close> follows whether a call of \<open>Action.Execute\<close> is open, and
  fails (\<open>None\<close>) when a call begins while one is open or returns while none is. A
  history is free of overlap when reading it never fails.
\<close>

fun track :: "bool option \<Rightarrow> exec_event \<Rightarrow> bool option" where
  "track None x = None"
| "track (Some running) (Begin l) = (if running then None else Some True)"
| "track (Some running) (End l err) = (if running then Some False else None)"

definition overlap_free :: "exec_event list \<Rightarrow> bool" where
  "overlap_free h = (foldl track (Some False) h \<noteq> None)"

fun by_listener :: "listener \<Rightarrow> exec_event \<Rightarrow> bool" where
  "by_listener l (Begin l') = (l = l')"
| "by_listener l (End l' err) = (l = l')"

text \<open>
  The calls of one listener, read on their own: \<open>Some True\<close> when a call of the
  listener is open at the end of the history, \<open>Some False\<close> when none is, \<open>None\<close>
  when two calls of the listener overlap.
\<close>

definition open_calls :: "listener \<Rightarrow> exec_event list \<Rightarrow> bool option" where
  "open_calls l h = foldl track (Some False) (filter (by_listener l) h)"






section \<open>Notions used in the statements\<close>

text \<open>The bytes hold the frame terminator somewhere.\<close>

fun contains_CRLF :: "string \<Rightarrow> bool" where
  "contains_CRLF (a # b # t) = ((a = CR \<and> b = LF) \<or> contains_CRLF (b # t))"
| "contains_CRLF _ = False"

text \<open>Every byte is below 128.\<close>

definition ascii :: "string \<Rightarrow> bool" where
  "ascii s = (\<forall>c \<in> set s. (of_char c :: nat) < 128)"

text \<open>
  The connections that the pool of a device has handed out, and those it has got back,
  in order.
\<close>

definition acquired :: "dstate \<Rightarrow> conn list" where
  "acquired s = (case dpool s of None \<Rightarrow> [] | Some p \<Rightarrow> handed_out p)"

definition released :: "dstate \<Rightarrow> conn list" where
  "released s = (case dpool s of None \<Rightarrow> [] | Some p \<Rightarrow> given_back p)"

text \<open>The wire text of the command that \<open>buildCommand\<close> returned, if it returned one.\<close>

definition rendered :: "panic + StringCommand option \<Rightarrow> string option" where
  "rendered r = (case r of Inr (Some c) \<Rightarrow> Some (c_Value c) | _ \<Rightarrow> None)"

text \<open>The command that a parser returned, if it returned one.\<close>

definition parsed ::
  "panic + (StringCommand option \<times> source option) \<Rightarrow> (CommandType \<times> string) option" where
  "parsed r = (case r of Inr (Some c, src) \<Rightarrow> Some (c_Type c, c_Value c) | _ \<Rightarrow> None)"

section \<open>Example data\<close>

definition zone12 :: Zone where
  "zone12 = \<lparr> z_LocalID = ''12'', z_GlobalID = ''z-12'', z_Name = ''Kitchen'' \<rparr>"

definition button3 :: Button where
  "button3 = \<lparr> b_LocalID = ''3'', b_GlobalID = ''b-3'', b_Name = ''On'' \<rparr>"

definition keypad9 :: Device where
  "keypad9 = MkDevice ''9'' ''d-9'' ''Keypad'' ''Hall keypad''
     (Map.empty(''3'' \<mapsto> button3)) Map.empty Map.empty"

definition hub :: Device where
  "hub = MkDevice ''1'' ''d-1'' ''Hub'' ''Lighting hub''
     Map.empty (Map.empty(''9'' \<mapsto> keypad9)) (Map.empty(''12'' \<mapsto> zone12))"

text \<open>
  The hub at run time, with a pool of two connections, after \<open>InitConnections\<close> and
  \<open>StartProducingEvents\<close>.
\<close>

definition streaming_hub :: dstate where
  "streaming_hub =
     snd (StartProducingEvents (InitConnections
       ((NewDevice ''1'' ''d-1'' ''Hub'' ''Lighting hub'')
          \<lparr> device := hub, ci_Stream := True, ci_PoolSize := 2 \<rparr>)))"

text \<open>The same hub with an empty pool: every \<open>Connect\<close> fails.\<close>

definition unreachable_hub :: dstate where
  "unreachable_hub =
     snd (StartProducingEvents (InitConnections
       ((NewDevice ''1'' ''d-1'' ''Hub'' ''Lighting hub'')
          \<lparr> device := hub, ci_Stream := True, ci_PoolSize := 0 \<rparr>)))"

definition silence :: "nat \<Rightarrow> conn_script" where
  "silence n = \<lparr> chunks = [], ending = EOF \<rparr>"

definition set_level_55 :: commandBuilderParams where
  "set_level_55 =
     \<lparr> p_CommandType = CTZoneSetLevel, p_Zone = Some zone12,
       p_Intensity = Finite False 55,
       p_Device = Some hub, p_SourceDevice = None, p_Button = None \<rparr>"

definition press_3 :: commandBuilderParams where
  "press_3 =
     \<lparr> p_CommandType = CTDevicePressButton, p_Zone = None,
       p_Intensity = Finite False 0,
       p_Device = Some hub, p_SourceDevice = Some keypad9, p_Button = Some button3 \<rparr>"

definition release_3 :: commandBuilderParams where
  "release_3 = press_3 \<lparr> p_CommandType := CTDeviceReleaseButton \<rparr>"

text \<open>Frames as they appear on the wire.\<close>

definition level_frame :: string where
  "level_frame = ''#OUTPUT,12,1,55.00'' @ CRLF"

definition level_update :: string where
  "level_update = ''~OUTPUT,12,1,55.00'' @ CRLF"


definition press_of_button_7 :: string where
  "press_of_button_7 = ''~DEVICE,9,7,3'' @ CRLF"

text \<open>The frame \<open>level_update\<close> as four reads deliver it.\<close>

definition level_update_chunks :: "string list" where
  "level_update_chunks = [''~OUT'', ''PUT,12,1,5'', ''5.00'' @ [CR], [LF]]"

text \<open>The same frame before its line feed has arrived.\<close>

definition level_update_unterminated :: string where
  "level_update_unterminated = ''~OUTPUT,12,1,55.00'' @ [CR]"

text \<open>
  A zone update whose zone id is the letter U+00E9, two bytes in UTF-8: 19 bytes, 18
  runes.
\<close>

definition accented_frame :: string where
  "accented_frame = ''~OUTPUT,'' @ [CHR 0xC3, CHR 0xA9] @ '',1,5.00'' @ CRLF"

text \<open>A connection whose first read fails.\<close>

definition first_read_fails :: conn_script where
  "first_read_fails = \<lparr> chunks = [], ending = ReadFailed \<rparr>"

text \<open>The streaming hub after its removal from the system.\<close>

definition removed_hub :: dstate where
  "removed_hub = streaming_hub \<lparr> removed := True \<rparr>"

text \<open>A device that is started, streams one turn, and is started again.\<close>

definition fresh_hub :: dstate where
  "fresh_hub = (NewDevice ''1'' ''d-1'' ''Hub'' ''Lighting hub'')
     \<lparr> device := hub, ci_Stream := True, ci_PoolSize := 2 \<rparr>"

definition two_starts :: "dev_op list" where
  "two_starts =
     [Op_InitConnections, Op_StartProducingEvents, Op_StreamingTurn silence,
      Op_StartProducingEvents]"

text \<open>
  A recipe whose trigger has a fire channel and fires on every event, an event, and
  three schedules: one in which both listeners decide to fire; its continuation, in
  which the execution of the fire listener returns, the fire listener executes again,
  and the execution of the event listener fails; and one with a fire signal and an
  event that arrive while the recipe is disabled. \<open>paused\<close> is the started recipe
  after \<open>SetEnabled(false)\<close>.
\<close>

definition always :: "unit Trigger" where
  "always = \<lparr> t_fire = True, t_processesEvents = True,
     t_ProcessEvent = (\<lambda>ts e. (True, ts)), t_init = () \<rparr>"

definition lights_on :: Recipe where
  "lights_on = NewRecipe ''6ba7b810'' ''Lights on'' ''Turn the hall lights on'' True"

definition an_event :: Event where
  "an_event = NewEvent hub
     \<lparr> c_Device = Some hub, c_Friendly = ''Zone level'', c_Value = level_frame,
       c_Type = CTZoneSetLevel \<rparr>
     level_update ETUnknown (Some (SrcZone zone12))"

definition both_fire :: "label list" where
  "both_fire = [L_Fire True, L_FireListener, L_Event an_event, L_EventListener, L_EventListener]"

definition two_rounds :: "label list" where
  "two_rounds = both_fire @
     [L_ExecuteReturns FireListener None, L_Fire True, L_FireListener,
      L_ExecuteReturns EventListener (Some ActionFailed)]"



section \<open>Lemmas about the model\<close>

subsection \<open>The translator on the example data\<close>

lemmas re_defs = FindStringSubmatch_def FindStringIndex_def zone_re_def device_re_def
  split_re_def lit_def CRLF_def CR_def LF_def HasPrefix_def

lemma sprintf_55: "sprintf_2f (Finite False 55) = ''55.00''"
  by (simp add: sprintf_2f.simps round_half_even_def show_nat.simps digit_def Let_def)

lemma readFloat_55: "readFloat ''55.00'' = Some (False, False, 5500, - 2, 5)"
  by (simp add: readFloat_def read_exp_part_def is_digit_def digit_val_def Let_def)

lemma floor_log2_55: "floor_log2 (55 * 2 ^ 1022) = 1027"
  by (simp add: floor_log2_def)

lemma nearest_float64_55: "nearest_float64 55 = Some 55"
  unfolding nearest_float64_def floor_log2_55
  by (simp add: pow2_def round_half_even_def Let_def)

lemma ParseFloat_55: "ParseFloat ''55.00'' = Some (Finite False 55)"
  by (simp add: ParseFloat_def special_def readFloat_55 pow10_def nearest_float64_55)

lemma unknown_button_panics:
  "parseCommandString hub press_of_button_7 = Inl NilDereference"
  by (simp add: press_of_button_7_def parseCommandString_def parseDeviceCommand_def re_defs hub_def
      keypad9_def buildCommand_def)


subsection \<open>Matches of the split pattern\<close>

lemma try_lens_Nil: "(\<And>j. f j = []) \<Longrightarrow> try_lens k f = []"
  by (induction k) auto

lemma try_lens_nonempty: "try_lens k f \<noteq> [] \<Longrightarrow> \<exists>j. 0 < j \<and> j \<le> k \<and> f j \<noteq> []"
proof (induction k)
  case 0
  then show ?case by simp
next
  case (Suc k)
  show ?case
  proof (cases "f (Suc k) = []")
    case True
    with Suc obtain j where "0 < j" "j \<le> k" "f j \<noteq> []" by auto
    then show ?thesis by (intro exI [of _ j]) simp
  next
    case False
    then show ?thesis by (intro exI [of _ "Suc k"]) simp
  qed
qed

lemma rmatch_CRLF: "rmatch (lit CRLF) u = (if take 2 u = CRLF then [(2, [])] else [])"
proof (cases u)
  case Nil
  then show ?thesis by (simp add: lit_def CRLF_def)
next
  case (Cons a t)
  then show ?thesis by (cases t) (auto simp: lit_def CRLF_def)
qed

lemma contains_CRLF_take: "take 2 u = CRLF \<Longrightarrow> contains_CRLF u"
  by (cases u rule: contains_CRLF.cases) (auto simp: CRLF_def)

lemma contains_CRLF_Cons: "contains_CRLF t \<Longrightarrow> contains_CRLF (c # t)"
  by (cases t) auto

lemma contains_CRLF_drop: "contains_CRLF (drop k s) \<Longrightarrow> contains_CRLF s"
proof (induction s arbitrary: k)
  case Nil
  then show ?case by simp
next
  case (Cons c s)
  then show ?case by (cases k) (auto intro: contains_CRLF_Cons)
qed

lemma contains_CRLF_LF: "contains_CRLF s \<Longrightarrow> LF \<in> set s"
  by (induction s rule: contains_CRLF.induct) auto

lemma rmatch_One_pos: "(n, g) \<in> set (rmatch (One cc # r) s) \<Longrightarrow> 0 < n \<and> s \<noteq> []"
  by (cases s) (auto split: if_splits)

lemma rmatch_split_re_CRLF:
  assumes "rmatch split_re s \<noteq> []"
  shows "contains_CRLF s"
proof -
  from assms obtain c0 c1 t where s: "s = c0 # c1 # t"
    by (cases s rule: contains_CRLF.cases) (auto simp: split_re_def split: if_splits)
  let ?f = "\<lambda>k. map (\<lambda>(n, g). (k + n, g)) (rmatch (lit CRLF) (drop k t))"
  from assms s have "try_lens (length (takeWhile (cmatch AnyNoNL) t)) ?f \<noteq> []"
    by (auto simp: split_re_def split: if_splits)
  then obtain j where "?f j \<noteq> []"
    using try_lens_nonempty by blast
  then have "take 2 (drop j t) = CRLF"
    by (auto simp: rmatch_CRLF split: if_splits)
  then have "contains_CRLF t"
    by (blast intro: contains_CRLF_take contains_CRLF_drop)
  then show ?thesis
    by (simp add: s contains_CRLF_Cons)
qed

lemma find_from_split_re_None:
  "\<not> contains_CRLF s \<Longrightarrow> find_from split_re s i = None"
proof (induction s arbitrary: i)
  case Nil
  then show ?case by (simp add: split_re_def)
next
  case (Cons c s)
  from Cons.prems have "rmatch split_re (c # s) = []"
    using rmatch_split_re_CRLF by blast
  moreover from Cons.prems have "\<not> contains_CRLF s"
    using contains_CRLF_Cons by blast
  ultimately show ?case
    using Cons.IH by simp
qed

lemma split_no_terminator: "\<not> contains_CRLF s \<Longrightarrow> split cap s = Inr (0, None)"
  by (simp add: split_def FindStringIndex_def find_from_split_re_None)

lemma rmatch_split_re_pos: "(n, h) \<in> set (rmatch split_re s) \<Longrightarrow> 0 < n \<and> s \<noteq> []"
  unfolding split_re_def using rmatch_One_pos by (metis append_Cons)

lemma find_from_split_re_bounds:
  "find_from split_re s i = Some (a, b, g) \<Longrightarrow> a < b \<and> s \<noteq> []"
proof (induction s arbitrary: i)
  case Nil
  then show ?case by (simp add: split_re_def)
next
  case (Cons c s)
  show ?case
  proof (cases "rmatch split_re (c # s)")
    case Nil
    with Cons show ?thesis by auto
  next
    case (Cons x xs)
    obtain n h where x: "x = (n, h)" by (cases x)
    with Cons have "(n, h) \<in> set (rmatch split_re (c # s))" by simp
    then have "0 < n" using rmatch_split_re_pos by blast
    with Cons x Cons.prems show ?thesis by auto
  qed
qed

lemma split_advance: "split cap buf = Inr (adv, Some tok) \<Longrightarrow> 0 < adv \<and> buf \<noteq> []"
proof -
  assume a: "split cap buf = Inr (adv, Some tok)"
  then obtain i0 g where f: "find_from split_re buf 0 = Some (i0, adv, g)"
    by (auto simp: split_def FindStringIndex_def Let_def split: option.splits if_splits)
  from find_from_split_re_bounds [OF f] show ?thesis by simp
qed

lemma split_no_token: "split cap buf = Inr (adv, None) \<Longrightarrow> adv = 0"
  by (auto simp: split_def Let_def split: option.splits if_splits)

subsection \<open>Frames and the split function\<close>

lemma length_CRLF: "length CRLF = 2"
  by (simp add: CRLF_def)

lemma takeWhile_body:
  "LF \<notin> set body \<Longrightarrow> takeWhile (cmatch AnyNoNL) (body @ CRLF @ tail) = body @ [CR]"
  by (induction body) (auto simp: CRLF_def CR_def LF_def)

lemma rmatch_split_re_Cons:
  "rmatch split_re (s # k # t) =
     (if s \<in> set ''~|#'' \<and> k \<in> set ''OUTPUT|DEVICE''
      then map (\<lambda>(n, g). (Suc n, g)) (map (\<lambda>(n, g). (Suc n, g))
             (try_lens (length (takeWhile (cmatch AnyNoNL) t))
                (\<lambda>j. map (\<lambda>(n, g). (j + n, g)) (rmatch (lit CRLF) (drop j t)))))
      else [])"
  unfolding split_re_def by simp

lemma rmatch_frame:
  assumes "s \<in> set ''~|#''" "k \<in> set ''OUTPUT|DEVICE''" "body \<noteq> []" "LF \<notin> set body"
  shows "\<exists>rest. rmatch split_re (s # k # body @ CRLF @ tail) = (length body + 4, []) # rest"
proof -
  obtain m where m: "length body = Suc m"
    using assms(3) by (cases body) auto
  let ?f = "\<lambda>j. map (\<lambda>(n, g). (j + n, g :: string list))
              (rmatch (lit CRLF) (drop j (body @ CRLF @ tail)))"
  have "rmatch (lit CRLF) (LF # tail) = []"
    by (simp add: rmatch_CRLF) (simp add: CRLF_def CR_def LF_def)
  moreover have "drop (Suc (Suc m)) (body @ CRLF @ tail) = LF # tail"
    using m by (simp add: CRLF_def)
  ultimately have f1: "?f (Suc (Suc m)) = []"
    by simp
  have f2: "?f (Suc m) = [(Suc m + 2, [])]"
    using m by (simp add: rmatch_CRLF length_CRLF)
  have tl: "try_lens (Suc (Suc m)) ?f = (Suc m + 2, []) # try_lens m ?f"
    using f1 f2 by simp
  have len: "length (takeWhile (cmatch AnyNoNL) (body @ CRLF @ tail)) = Suc (Suc m)"
    using assms(4) m by (simp add: takeWhile_body)
  have "rmatch split_re (s # k # body @ CRLF @ tail) =
      map (\<lambda>(n, g). (Suc n, g)) (map (\<lambda>(n, g). (Suc n, g)) ((Suc m + 2, []) # try_lens m ?f))"
    using assms(1,2) by (simp only: rmatch_split_re_Cons len tl simp_thms if_True)
  then show ?thesis
    using m by simp
qed

lemma FindStringIndex_frames:
  assumes "s \<in> set ''~|#''" "k \<in> set ''OUTPUT|DEVICE''" "body \<noteq> []" "LF \<notin> set body"
  shows "FindStringIndex split_re (s # k # body @ CRLF @ tail) = Some (0, length body + 4)"
proof -
  from rmatch_frame [OF assms] obtain rest
    where "rmatch split_re (s # k # body @ CRLF @ tail) = (length body + 4, []) # rest" ..
  then show ?thesis
    by (simp add: FindStringIndex_def)
qed

lemma FindStringIndex_frame:
  assumes "s \<in> set ''~|#''" "k \<in> set ''OUTPUT|DEVICE''" "body \<noteq> []" "LF \<notin> set body"
  shows "FindStringIndex split_re (s # k # body @ CRLF) = Some (0, length (s # k # body @ CRLF))"
  using FindStringIndex_frames [OF assms, of "[]"] by (simp add: length_CRLF)

lemma runes_ascii: "ascii s \<Longrightarrow> runes s = map of_char s"
proof (induction s)
  case Nil
  then show ?case by (simp add: runes.simps)
next
  case (Cons c s)
  then have "decoderune (c # s) = (of_char c, 1)"
    by (simp add: decoderune_def ascii_def)
  with Cons show ?case
    by (subst runes.simps) (simp add: ascii_def)
qed

lemma encoderune_ascii: "(of_char c :: nat) < 128 \<Longrightarrow> encoderune (of_char c) = [c]"
  by (simp add: encoderune_def)

lemma recode_ascii: "ascii s \<Longrightarrow> concat (map encoderune (map of_char s)) = s"
  by (induction s) (simp_all add: ascii_def encoderune_ascii)

lemma split_frame_ascii:
  assumes "s \<in> set ''~|#''" "k \<in> set ''OUTPUT|DEVICE''" "body \<noteq> []" "LF \<notin> set body"
    and "F = s # k # body @ CRLF" and "ascii F"
  shows "split cap F = Inr (length F, Some F)"
proof -
  have fi: "FindStringIndex split_re F = Some (0, length F)"
    using FindStringIndex_frame [OF assms(1-4)] assms(5) by simp
  have "runes F = map of_char F"
    using assms(6) by (rule runes_ascii)
  then show ?thesis
    using fi recode_ascii [OF assms(6)] by (simp add: split_def)
qed

lemma drain_Nil: "drain cap [] = ([], Inr [])"
  by (subst drain.simps) (simp add: split_def FindStringIndex_def split_re_def)

lemma drain_no_terminator: "\<not> contains_CRLF buf \<Longrightarrow> drain cap buf = ([], Inr buf)"
  by (subst drain.simps) (simp add: split_no_terminator)

lemma drain_frame_ascii:
  assumes "s \<in> set ''~|#''" "k \<in> set ''OUTPUT|DEVICE''" "body \<noteq> []" "LF \<notin> set body"
    and "F = s # k # body @ CRLF" and "ascii F"
  shows "drain cap F = ([F], Inr [])"
proof -
  have "F \<noteq> []" using assms(5) by simp
  then show ?thesis
    using split_frame_ascii [OF assms]
    by (subst drain.simps) (simp add: drain_Nil)
qed


subsection \<open>The scanner on a fragmented frame\<close>

lemma drain_frame:
  assumes "s \<in> set ''~|#''" "k \<in> set ''OUTPUT|DEVICE''" "body \<noteq> []" "LF \<notin> set body"
    and "F = s # k # body @ CRLF"
  shows "drain cap F = ([], Inl (ScanPanic SliceBounds)) \<or> (\<exists>tok. drain cap F = ([tok], Inr []))"
proof -
  have fi: "FindStringIndex split_re F = Some (0, length F)"
    using FindStringIndex_frame [OF assms(1-4)] assms(5) by simp
  have ne: "F \<noteq> []" using assms(5) by simp
  show ?thesis
  proof (cases "length F \<le> length (runes F @ replicate (cap (length (runes F)) - length (runes F)) 0)")
    case True
    then have "\<exists>tok. split cap F = Inr (length F, Some tok)"
      using fi by (simp add: split_def Let_def)
    then obtain tok where "split cap F = Inr (length F, Some tok)" ..
    then have "drain cap F = ([tok], Inr [])"
      using ne by (subst drain.simps) (simp add: drain_Nil)
    then show ?thesis by blast
  next
    case False
    then have "split cap F = Inl SliceBounds"
      using fi by (simp add: split_def Let_def)
    then show ?thesis
      by (subst drain.simps) simp
  qed
qed

lemma scan_no_data: "concat cs = [] \<Longrightarrow> scan cap [] cs e = ([], ScanDone (if e = EOF then None else Some ErrRead))"
  by (induction cs) (simp_all add: drain_Nil MaxScanTokenSize_def)

lemma prefix_set: "buf @ rest = xs @ [l] \<Longrightarrow> rest \<noteq> [] \<Longrightarrow> set buf \<subseteq> set xs"
  by (cases rest rule: rev_cases) auto

lemma frame_prefix_no_terminator:
  assumes "s \<in> set ''~|#''" "k \<in> set ''OUTPUT|DEVICE''" "LF \<notin> set body"
    and "buf @ rest = s # k # body @ CRLF" and "rest \<noteq> []"
  shows "\<not> contains_CRLF buf"
proof -
  have "buf @ rest = (s # k # body @ [CR]) @ [LF]"
    using assms(4) by (simp add: CRLF_def)
  then have "set buf \<subseteq> set (s # k # body @ [CR])"
    using assms(5) by (rule prefix_set)
  moreover have "LF \<notin> set (s # k # body @ [CR])"
    using assms(1-3) by (auto simp: LF_def CR_def)
  ultimately have "LF \<notin> set buf" by blast
  then show ?thesis
    using contains_CRLF_LF by blast
qed

lemma scan_chunked:
  assumes "s \<in> set ''~|#''" "k \<in> set ''OUTPUT|DEVICE''" "body \<noteq> []" "LF \<notin> set body"
    and "F = s # k # body @ CRLF" and "length F \<le> MaxScanTokenSize"
  shows "buf @ concat cs = F \<Longrightarrow>
    scan cap buf cs e =
      (case drain cap F of
         (ts, Inl stop) \<Rightarrow> (ts, stop)
       | (ts, Inr rest) \<Rightarrow> (ts, ScanDone (if e = EOF then None else Some ErrRead)))"
proof (induction cs arbitrary: buf)
  case Nil
  then have buf: "buf = F" by simp
  from drain_frame [OF assms(1-5), of cap] show ?case
    by (auto simp: buf MaxScanTokenSize_def)
next
  case (Cons c cs)
  show ?case
  proof (cases "c @ concat cs = []")
    case True
    with Cons.prems have buf: "buf = F" by simp
    from True have cs: "concat cs = []" and c: "c = []" by simp_all
    from drain_frame [OF assms(1-5), of cap] show ?thesis
      by (auto simp: buf c scan_no_data [OF cs] MaxScanTokenSize_def)
  next
    case False
    from Cons.prems assms(5) have "buf @ (c @ concat cs) = s # k # body @ CRLF" by simp
    from frame_prefix_no_terminator [OF assms(1,2,4) this False]
    have d: "drain cap buf = ([], Inr buf)" by (rule drain_no_terminator)
    have "length F = length buf + length (c @ concat cs)"
      using arg_cong [OF Cons.prems, of length] by simp
    moreover have "0 < length (c @ concat cs)"
      using False by blast
    ultimately have "length buf < length F"
      by linarith
    with assms(6) have small: "\<not> MaxScanTokenSize \<le> length buf" by simp
    from Cons.prems have "(buf @ c) @ concat cs = F" by simp
    from Cons.IH [OF this] d small show ?thesis by simp
  qed
qed

lemma scan_one_frame:
  assumes "s \<in> set ''~|#''" "k \<in> set ''OUTPUT|DEVICE''" "body \<noteq> []" "LF \<notin> set body"
    and "F = s # k # body @ CRLF" and "length F \<le> MaxScanTokenSize" and "ascii F"
    and "concat cs = F"
  shows "scan cap [] cs e = ([F], ScanDone (if e = EOF then None else Some ErrRead))"
proof -
  have "[] @ concat cs = F" using assms(8) by simp
  from scan_chunked [OF assms(1-6) this, of cap e] drain_frame_ascii [OF assms(1-5,7), of cap]
  show ?thesis by simp
qed

lemma scan_press_of_button_7:
  "scan cap [] [press_of_button_7] EOF = ([press_of_button_7], ScanDone None)"
proof -
  have "press_of_button_7 = CHR ''~'' # CHR ''D'' # ''EVICE,9,7,3'' @ CRLF"
    by (simp add: press_of_button_7_def)
  moreover have "ascii press_of_button_7"
    by (simp add: press_of_button_7_def ascii_def CRLF_def CR_def LF_def)
  moreover have "length press_of_button_7 \<le> MaxScanTokenSize"
    by (simp add: press_of_button_7_def MaxScanTokenSize_def CRLF_def)
  moreover have "LF \<notin> set ''EVICE,9,7,3''"
    by (simp add: LF_def)
  ultimately show ?thesis
    using scan_one_frame [of "CHR ''~''" "CHR ''D''" "''EVICE,9,7,3''" press_of_button_7
        "[press_of_button_7]" cap EOF]
    by simp
qed


lemma Connect_streaming_hub:
  "\<exists>s1. Connect streaming_hub = (Inr (Inr 0), s1) \<and> evpFire s1 = Some 1 \<and> device s1 = hub
     \<and> dpool s1 = Some \<lparr> idle = [1], handed_out = [0], given_back = [] \<rparr>"
  by (simp add: streaming_hub_def StartProducingEvents_def InitConnections_def NewDevice_def Let_def
      Connect_def pool_Get_def NewConnectionPool_def upt_rec)

subsection \<open>What stream does to the state\<close>

lemma drain_progress: "drain cap buf = (ts, r) \<Longrightarrow> r \<noteq> Inl ScanNoProgress"
proof (induction cap buf arbitrary: ts r rule: drain.induct)
  case (1 cap buf)
  show ?case
  proof (cases "split cap buf")
    case (Inl p)
    with "1.prems" show ?thesis by (subst (asm) drain.simps) auto
  next
    case (Inr x)
    obtain adv tok where x: "x = (adv, tok)" by (cases x)
    show ?thesis
    proof (cases tok)
      case None
      with Inr x "1.prems" show ?thesis by (subst (asm) drain.simps) auto
    next
      case (Some t)
      with Inr x have sp: "split cap buf = Inr (adv, Some t)" by simp
      from split_advance [OF sp] have ok: "\<not> (adv = 0 \<or> buf = [])" by simp
      obtain ts' r' where d: "drain cap (drop adv buf) = (ts', r')"
        by (cases "drain cap (drop adv buf)")
      from "1.IH" [OF sp refl refl ok d] have "r' \<noteq> Inl ScanNoProgress" .
      moreover from "1.prems" sp ok d have "r = r'"
        by (subst (asm) drain.simps) simp
      ultimately show ?thesis by simp
    qed
  qed
qed

lemma scan_progress: "scan cap buf cs e = (ts, stop) \<Longrightarrow> stop \<noteq> ScanNoProgress"
proof (induction cs arbitrary: buf ts stop)
  case Nil
  obtain ts' r where d: "drain cap buf = (ts', r)" by (cases "drain cap buf")
  from drain_progress [OF d] d Nil show ?case
    by (cases r) (auto split: if_splits)
next
  case (Cons c cs)
  obtain ts' r where d: "drain cap buf = (ts', r)" by (cases "drain cap buf")
  show ?case
  proof (cases r)
    case (Inl x)
    with drain_progress [OF d] d Cons.prems show ?thesis by auto
  next
    case (Inr rest)
    show ?thesis
    proof (cases "MaxScanTokenSize \<le> length rest")
      case True
      with d Inr Cons.prems show ?thesis by auto
    next
      case False
      obtain ts2 stop2 where sc: "scan cap (rest @ c) cs e = (ts2, stop2)"
        by (cases "scan cap (rest @ c) cs e")
      from Cons.IH [OF sc] d Inr False sc Cons.prems show ?thesis by auto
    qed
  qed
qed

lemma send_event_frame:
  "send_event ch e s = Inr s' \<Longrightarrow> \<exists>ec. s' = s\<lparr> event_chans := ec \<rparr>"
  by (auto simp: send_event_def split: if_splits)

lemma process_tokens_frame: "\<exists>ec. snd (process_tokens ts s) = s\<lparr> event_chans := ec \<rparr>"
proof (induction ts arbitrary: s)
  case Nil
  have "s = s\<lparr> event_chans := event_chans s \<rparr>" by simp
  then show ?case by (metis process_tokens.simps(1) snd_conv)
next
  case (Cons orig ts)
  have same: "\<exists>ec. s = s\<lparr> event_chans := ec \<rparr>"
    by (rule exI [of _ "event_chans s"]) simp
  show ?case
  proof (cases "evpFire s")
    case None
    then show ?thesis using Cons.IH [of s] by simp
  next
    case (Some ch)
    show ?thesis
    proof (cases "parseCommandString (device s) orig")
      case (Inl p)
      with Some same show ?thesis by simp
    next
      case (Inr r)
      obtain c src where r: "r = (c, src)" by (cases r)
      show ?thesis
      proof (cases c)
        case None
        with Some Inr r show ?thesis using Cons.IH [of s] by simp
      next
        case (Some cmd)
        show ?thesis
        proof (cases "send_event ch (NewEvent (device s) cmd orig ETUnknown src) s")
          case (Inl p)
          with \<open>evpFire s = Some ch\<close> Inr r Some same show ?thesis by simp
        next
          case (Inr s')
          from send_event_frame [OF this] obtain ec where s': "s' = s\<lparr> event_chans := ec \<rparr>" ..
          from Cons.IH [of s'] obtain ec' where "snd (process_tokens ts s') = s'\<lparr> event_chans := ec' \<rparr>" ..
          then have "snd (process_tokens ts s') = s\<lparr> event_chans := ec' \<rparr>"
            by (simp add: s')
          with \<open>evpFire s = Some ch\<close> \<open>parseCommandString (device s) orig = Inr r\<close> r Some Inr
          show ?thesis by (intro exI [of _ ec']) simp
        qed
      qed
    qed
  qed
qed

lemma stream_body_frame:
  "fst (stream_body sc s) \<noteq> NoReturn \<and> (\<exists>ec. snd (stream_body sc s) = s\<lparr> event_chans := ec \<rparr>)"
proof -
  obtain tokens stop where sc: "scan (runecap s) [] (chunks sc) (ending sc) = (tokens, stop)"
    by (cases "scan (runecap s) [] (chunks sc) (ending sc)")
  from scan_progress [OF sc] have np: "stop \<noteq> ScanNoProgress" .
  obtain p s' where pt: "process_tokens tokens s = (p, s')"
    by (cases "process_tokens tokens s")
  with process_tokens_frame [of tokens s] obtain ec where "s' = s\<lparr> event_chans := ec \<rparr>" by auto
  with sc pt np show ?thesis
    by (auto simp: stream_body_def split: option.splits scan_end.splits)
qed

text \<open>What a call of \<open>stream\<close> does to the pool, by the state of the pool.\<close>

lemma stream_without_pool: "dpool s = None \<Longrightarrow> stream sc s = (Panicked NilDereference, s)"
  by (simp add: stream_def Connect_def)

lemma stream_connect_fails:
  "dpool s = Some p \<Longrightarrow> idle p = [] \<Longrightarrow>
   stream sc s = (Returned (Some UnableToConnect), s\<lparr> dpool := Some p \<rparr>)"
  by (simp add: stream_def Connect_def pool_Get_def)

lemma stream_connected:
  assumes "dpool s = Some p" and "idle p = c # cs"
  shows "\<exists>r ec. stream sc s =
      (r, s\<lparr> dpool := Some (pool_Release c (p\<lparr> idle := cs, handed_out := handed_out p @ [c] \<rparr>)),
            event_chans := ec \<rparr>) \<and> r \<noteq> NoReturn"
proof -
  let ?p1 = "p\<lparr> idle := cs, handed_out := handed_out p @ [c] \<rparr>"
  let ?s1 = "s\<lparr> dpool := Some ?p1 \<rparr>"
  have con: "Connect s = (Inr (Inr c), ?s1)"
    using assms by (simp add: Connect_def pool_Get_def)
  obtain r s2 where body: "stream_body sc ?s1 = (r, s2)"
    by (cases "stream_body sc ?s1")
  with stream_body_frame [of sc ?s1] obtain ec
    where r: "r \<noteq> NoReturn" and s2: "s2 = ?s1\<lparr> event_chans := ec \<rparr>" by auto
  have "stream sc s = (r, s\<lparr> dpool := Some (pool_Release c ?p1), event_chans := ec \<rparr>)"
    using con body r s2 by (cases r) (simp_all add: stream_def ReleaseConnection_def)
  with r show ?thesis by blast
qed

lemma Connect_cases:
  "Connect s = (Inr (Inr c), s1) \<Longrightarrow> \<exists>p cs. dpool s = Some p \<and> idle p = c # cs"
  by (auto simp: Connect_def pool_Get_def split: option.splits list.splits)

lemma stream_keeps:
  "\<exists>dp ec. snd (stream sc s) = s\<lparr> dpool := dp, event_chans := ec \<rparr>"
proof (cases "dpool s")
  case None
  have "s = s\<lparr> dpool := dpool s, event_chans := event_chans s \<rparr>" by simp
  with stream_without_pool [OF None, of sc] show ?thesis by (metis snd_conv)
next
  case (Some p)
  show ?thesis
  proof (cases "idle p")
    case Nil
    have "s\<lparr> dpool := Some p \<rparr> = s\<lparr> dpool := Some p, event_chans := event_chans s \<rparr>" by simp
    with stream_connect_fails [OF Some Nil, of sc] show ?thesis by (metis snd_conv)
  next
    case (Cons c cs)
    from stream_connected [OF Some Cons, of sc] show ?thesis by (metis snd_conv)
  qed
qed

subsection \<open>A frame with a letter of two bytes\<close>

lemma runes_ascii_append: "ascii p \<Longrightarrow> runes (p @ s) = map of_char p @ runes s"
proof (induction p)
  case Nil
  then show ?case by simp
next
  case (Cons c p)
  then have "decoderune (c # p @ s) = (of_char c, 1)"
    by (simp add: decoderune_def ascii_def)
  with Cons show ?case
    by (subst runes.simps) (simp add: ascii_def)
qed

lemma runes_C3A9: "runes (CHR 0xC3 # CHR 0xA9 # s) = 233 # runes s"
  by (subst runes.simps) (simp add: decoderune_def is_cont_def low6_def)

lemma char_of_195: "char_of (195 :: nat) = CHR 0xC3"
proof -
  have "(of_char (CHR 0xC3) :: nat) = 195" by simp
  then show ?thesis by (metis char_of_char)
qed

lemma char_of_169: "char_of (169 :: nat) = CHR 0xA9"
proof -
  have "(of_char (CHR 0xA9) :: nat) = 169" by simp
  then show ?thesis by (metis char_of_char)
qed

lemma encoderune_233: "encoderune 233 = [CHR 0xC3, CHR 0xA9]"
  by (simp add: encoderune_def char_of_195 char_of_169)

lemma encoderune_0: "encoderune 0 = [CHR 0x00]"
proof -
  have "(of_char (CHR 0x00) :: nat) = 0" by simp
  then have "char_of (0 :: nat) = CHR 0x00" by (metis char_of_char)
  then show ?thesis by (simp add: encoderune_def)
qed

lemma recode_around_233:
  "ascii a \<Longrightarrow> ascii b \<Longrightarrow>
   concat (map encoderune (map of_char a @ 233 # map of_char b)) = a @ [CHR 0xC3, CHR 0xA9] @ b"
  using recode_ascii [of a] recode_ascii [of b] by (simp add: encoderune_233)

lemma accented_frame_shape:
  "accented_frame = CHR ''~'' # CHR ''O'' # (''UTPUT,'' @ [CHR 0xC3, CHR 0xA9] @ '',1,5.00'') @ CRLF"
  by (simp add: accented_frame_def)

lemma length_accented_frame: "length accented_frame = 19"
  by (simp add: accented_frame_def CRLF_def)

lemma FindStringIndex_accented:
  "FindStringIndex split_re (accented_frame @ tail) = Some (0, 19)"
proof -
  have "LF \<notin> set (''UTPUT,'' @ [CHR 0xC3, CHR 0xA9] @ '',1,5.00'')"
    by (simp add: LF_def)
  from FindStringIndex_frames [of "CHR ''~''" "CHR ''O''" _ tail, OF _ _ _ this]
  show ?thesis
    by (simp add: accented_frame_def)
qed

lemma runes_accented:
  "runes (accented_frame @ tail) =
     map of_char ''~OUTPUT,'' @ 233 # map of_char ('',1,5.00'' @ CRLF) @ runes tail"
proof -
  have a: "ascii ''~OUTPUT,''" and b: "ascii ('',1,5.00'' @ CRLF)"
    by (simp_all add: ascii_def CRLF_def CR_def LF_def)
  have "accented_frame @ tail =
      ''~OUTPUT,'' @ (CHR 0xC3 # CHR 0xA9 # ('',1,5.00'' @ CRLF) @ tail)"
    by (simp add: accented_frame_def)
  then show ?thesis
    by (simp only: runes_ascii_append [OF a] runes_C3A9 runes_ascii_append [OF b])
qed

lemma recode_accented:
  "concat (map encoderune (map of_char ''~OUTPUT,'' @ 233 # map of_char ('',1,5.00'' @ CRLF)))
     = accented_frame"
proof -
  have a: "ascii ''~OUTPUT,''" and b: "ascii ('',1,5.00'' @ CRLF)"
    by (simp_all add: ascii_def CRLF_def CR_def LF_def)
  show ?thesis
    unfolding recode_around_233 [OF a b] accented_frame_def by simp
qed

lemma split_overrun:
  assumes "FindStringIndex split_re data = Some (0, Suc (length rs))" and "runes data = rs"
  shows "split cap data =
     (if Suc (length rs) \<le> cap (length rs)
      then Inr (Suc (length rs), Some (concat (map encoderune rs) @ encoderune 0))
      else Inl SliceBounds)"
proof (cases "Suc (length rs) \<le> cap (length rs)")
  case True
  then obtain m where m: "cap (length rs) - length rs = Suc m"
    by (cases "cap (length rs) - length rs") auto
  have "take (Suc (length rs)) (rs @ replicate (Suc m) 0) = rs @ [0]"
    by simp
  then show ?thesis
    using True assms m by (simp add: split_def del: replicate.simps)
next
  case False
  then show ?thesis
    using assms by (simp add: split_def)
qed

lemma split_within:
  assumes "FindStringIndex split_re data = Some (0, length pre)" and "runes data = pre @ post"
  shows "split cap data = Inr (length pre, Some (concat (map encoderune pre)))"
  using assms by (simp add: split_def Let_def)

lemma split_accented:
  "split cap accented_frame =
     (if 19 \<le> cap 18 then Inr (19, Some (accented_frame @ [CHR 0x00])) else Inl SliceBounds)"
proof -
  define rs :: "nat list"
    where "rs = map of_char ''~OUTPUT,'' @ 233 # map of_char ('',1,5.00'' @ CRLF)"
  have rs: "runes accented_frame = rs"
    using runes_accented [of "[]"] by (simp add: runes.simps rs_def)
  have len: "length rs = 18"
    by (simp add: rs_def CRLF_def)
  have re: "concat (map encoderune rs) = accented_frame"
    unfolding rs_def by (rule recode_accented)
  have "FindStringIndex split_re accented_frame = Some (0, Suc (length rs))"
    using FindStringIndex_accented [of "[]"] by (simp add: len)
  from split_overrun [OF this rs, of cap] show ?thesis
    by (simp add: len re encoderune_0)
qed

lemma split_accented_then:
  assumes "ascii (c # tail)"
  shows "split cap (accented_frame @ c # tail) = Inr (19, Some (accented_frame @ [c]))"
proof -
  define rs :: "nat list"
    where "rs = map of_char ''~OUTPUT,'' @ 233 # map of_char ('',1,5.00'' @ CRLF)"
  have len: "length rs = 18"
    by (simp add: rs_def CRLF_def)
  have re: "concat (map encoderune rs) = accented_frame"
    unfolding rs_def by (rule recode_accented)
  have "runes (accented_frame @ c # tail) = rs @ map of_char (c # tail)"
    using runes_accented [of "c # tail"] runes_ascii [OF assms] by (simp add: rs_def)
  then have rs: "runes (accented_frame @ c # tail) = (rs @ [of_char c]) @ map of_char tail"
    by simp
  have "FindStringIndex split_re (accented_frame @ c # tail) = Some (0, length (rs @ [of_char c]))"
    using FindStringIndex_accented [of "c # tail"] by (simp add: len)
  from split_within [OF this rs, of cap] show ?thesis
    using encoderune_ascii [of c] assms by (simp add: len re ascii_def)
qed

lemma drain_level_update: "drain cap level_update = ([level_update], Inr [])"
proof -
  have "level_update = CHR ''~'' # CHR ''O'' # ''UTPUT,12,1,55.00'' @ CRLF"
    by (simp add: level_update_def)
  moreover have "ascii level_update"
    by (simp add: level_update_def ascii_def CRLF_def CR_def LF_def)
  moreover have "LF \<notin> set ''UTPUT,12,1,55.00''"
    by (simp add: LF_def)
  ultimately show ?thesis
    using drain_frame_ascii [of "CHR ''~''" "CHR ''O''" "''UTPUT,12,1,55.00''" level_update cap]
    by simp
qed

lemma drain_accented:
  "drain cap accented_frame =
     (if 19 \<le> cap 18 then ([accented_frame @ [CHR 0x00]], Inr [])
      else ([], Inl (ScanPanic SliceBounds)))"
proof -
  have "accented_frame \<noteq> []"
    using length_accented_frame by auto
  then show ?thesis
    by (subst drain.simps) (simp add: split_accented length_accented_frame drain_Nil)
qed

lemma drain_accented_then_level:
  "drain cap (accented_frame @ level_update) = ([accented_frame @ ''~'', level_update], Inr [])"
proof -
  have lu: "level_update = CHR ''~'' # tl level_update"
    by (simp add: level_update_def)
  have "ascii level_update"
    by (simp add: level_update_def ascii_def CRLF_def CR_def LF_def)
  then have "ascii (CHR ''~'' # tl level_update)"
    using lu by simp
  from split_accented_then [OF this, of cap]
  have "split cap (accented_frame @ level_update) = Inr (19, Some (accented_frame @ ''~''))"
    using lu by simp
  moreover have "drop 19 (accented_frame @ level_update) = level_update"
    by (simp add: length_accented_frame)
  moreover have "accented_frame @ level_update \<noteq> []"
    by (simp add: level_update_def)
  ultimately show ?thesis
    by (subst drain.simps) (simp add: drain_level_update)
qed

subsection \<open>One frame in many reads\<close>

text \<open>
  A complete frame \<open>F\<close> is a sentinel \<open>~\<close>, \<open>|\<close> or \<open>#\<close>, a character of the
  second class of the pattern, a non-empty body without line feed, and the terminator;
  it fits the buffer of the scanner. Delivered in one chunk or cut into any chunks
  \<open>cs\<close>, the scanner stops in the same way with the same tokens; when the bytes of
  \<open>F\<close> are ASCII, this is the single token \<open>F\<close>. For every proper prefix of \<open>F\<close>
  the split function returns advance zero and no token, so the bytes stay in the
  buffer; and it returns no token for any bytes without the terminator.
\<close>

lemma one_frame_in_many_reads:
  assumes "s \<in> set ''~|#''" and "k \<in> set ''OUTPUT|DEVICE''"
    and "body \<noteq> []" and "LF \<notin> set body"
    and "F = s # k # body @ CRLF" and "length F \<le> MaxScanTokenSize"
    and "concat cs = F"
  shows "scan cap [] cs e = scan cap [] [F] e
     \<and> (ascii F \<longrightarrow> scan cap [] cs e = ([F], ScanDone (if e = EOF then None else Some ErrRead)))
     \<and> (\<forall>buf rest. buf @ rest = F \<and> rest \<noteq> [] \<longrightarrow>
           split cap buf = Inr (0, None) \<and> drain cap buf = ([], Inr buf))
     \<and> (\<forall>P. \<not> contains_CRLF P \<longrightarrow> split cap P = Inr (0, None))"
proof -
  have many: "[] @ concat cs = F" using assms(7) by simp
  have one: "[] @ concat [F] = F" by simp
  have "scan cap [] cs e = scan cap [] [F] e"
    using scan_chunked [OF assms(1-6) many, of cap e] scan_chunked [OF assms(1-6) one, of cap e]
    by simp
  moreover have "ascii F \<longrightarrow> scan cap [] cs e = ([F], ScanDone (if e = EOF then None else Some ErrRead))"
    using scan_one_frame [OF assms(1-6) _ assms(7)] by blast
  moreover have "\<forall>buf rest. buf @ rest = F \<and> rest \<noteq> [] \<longrightarrow>
           split cap buf = Inr (0, None) \<and> drain cap buf = ([], Inr buf)"
  proof (intro allI impI)
    fix buf rest
    assume "buf @ rest = F \<and> rest \<noteq> []"
    then have "buf @ rest = s # k # body @ CRLF" and "rest \<noteq> []"
      using assms(5) by simp_all
    then have "\<not> contains_CRLF buf"
      using frame_prefix_no_terminator [OF assms(1,2,4)] by blast
    then show "split cap buf = Inr (0, None) \<and> drain cap buf = ([], Inr buf)"
      using split_no_terminator drain_no_terminator by blast
  qed
  moreover have "\<forall>P. \<not> contains_CRLF P \<longrightarrow> split cap P = Inr (0, None)"
    using split_no_terminator by blast
  ultimately show ?thesis by blast
qed

lemma level_update_in_four_reads:
  "concat level_update_chunks = level_update
   \<and> ascii level_update
   \<and> scan cap [] level_update_chunks EOF = ([level_update], ScanDone None)
   \<and> scan cap [] [level_update] EOF = ([level_update], ScanDone None)
   \<and> level_update_unterminated @ [LF] = level_update
   \<and> split cap level_update_unterminated = Inr (0, None)
   \<and> \<not> contains_CRLF ''~OUTPUT,12''
   \<and> split cap ''~OUTPUT,12'' = Inr (0, None)"
proof -
  have f: "level_update = CHR ''~'' # CHR ''O'' # ''UTPUT,12,1,55.00'' @ CRLF"
    by (simp add: level_update_def)
  have len: "length level_update \<le> MaxScanTokenSize"
    by (simp add: level_update_def MaxScanTokenSize_def CRLF_def)
  have cat: "concat level_update_chunks = level_update"
    by (simp add: level_update_chunks_def level_update_def CRLF_def)
  have asc: "ascii level_update"
    by (simp add: level_update_def ascii_def CRLF_def CR_def LF_def)
  have pre: "level_update_unterminated @ [LF] = level_update"
    by (simp add: level_update_def level_update_unterminated_def CRLF_def)
  have nt: "\<not> contains_CRLF ''~OUTPUT,12''"
    by (simp add: CR_def LF_def)
  have "CHR ''~'' \<in> set ''~|#''" and "CHR ''O'' \<in> set ''OUTPUT|DEVICE''"
    and "''UTPUT,12,1,55.00'' \<noteq> []" and "LF \<notin> set ''UTPUT,12,1,55.00''"
    by (simp_all add: LF_def)
  note t = one_frame_in_many_reads [OF this f len cat, of cap EOF]
  from t have "ascii level_update \<longrightarrow> scan cap [] level_update_chunks EOF
      = ([level_update], ScanDone (if EOF = EOF then None else Some ErrRead))"
    by blast
  with asc have a: "scan cap [] level_update_chunks EOF = ([level_update], ScanDone None)"
    by simp
  have e: "scan cap [] level_update_chunks EOF = scan cap [] [level_update] EOF"
    using t by blast
  have b: "scan cap [] [level_update] EOF = ([level_update], ScanDone None)"
    unfolding e [symmetric] by (rule a)
  have "level_update_unterminated @ [LF] = level_update \<and> [LF] \<noteq> []"
    using pre by simp
  then have c: "split cap level_update_unterminated = Inr (0, None)"
    using t by blast
  have d: "split cap ''~OUTPUT,12'' = Inr (0, None)"
    using t nt by blast
  from cat asc a b pre c nt d show ?thesis by blast
qed

subsection \<open>The turns of startStreaming\<close>

lemma cycle_keeps:
  "bool_chans (snd (cycle scripts s)) = bool_chans s
   \<and> next_chan (snd (cycle scripts s)) = next_chan s
   \<and> removed (snd (cycle scripts s)) = removed s
   \<and> attempts (snd (cycle scripts s)) = Suc (attempts s)"
proof -
  let ?s0 = "s\<lparr> attempts := Suc (attempts s) \<rparr>"
  obtain r s1 where st: "stream (scripts (attempts s)) ?s0 = (r, s1)"
    by (cases "stream (scripts (attempts s)) ?s0")
  with stream_keeps [of "scripts (attempts s)" ?s0] obtain dp ec
    where "s1 = ?s0\<lparr> dpool := dp, event_chans := ec \<rparr>" by auto
  with st show ?thesis
    by (cases r) (simp_all add: cycle_def Sleep_def)
qed

lemma cycle_Returned:
  assumes "fst (cycle scripts s) = Returned e"
  shows "e = None \<and> clock (snd (cycle scripts s)) = clock s + 10"
proof -
  let ?s0 = "s\<lparr> attempts := Suc (attempts s) \<rparr>"
  obtain r s1 where st: "stream (scripts (attempts s)) ?s0 = (r, s1)"
    by (cases "stream (scripts (attempts s)) ?s0")
  with stream_keeps [of "scripts (attempts s)" ?s0] obtain dp ec
    where "s1 = ?s0\<lparr> dpool := dp, event_chans := ec \<rparr>" by auto
  with st assms show ?thesis
    by (cases r) (simp_all add: cycle_def Sleep_def)
qed

lemma cycles_Suc_returned:
  "returned (fst (cycle scripts s)) \<Longrightarrow>
   cycles (Suc n) scripts s = cycles n scripts (snd (cycle scripts s))"
  by (cases "cycle scripts s"; cases "fst (cycle scripts s)") (auto simp: returned_def)

lemma cycles_Suc_stopped:
  "\<not> returned (fst (cycle scripts s)) \<Longrightarrow> \<not> returned (fst (cycles (Suc n) scripts s))"
  by (cases "cycle scripts s"; cases "fst (cycle scripts s)") (auto simp: returned_def)

lemma cycles_count:
  "returned (fst (cycles n scripts s)) \<Longrightarrow>
   attempts (snd (cycles n scripts s)) = attempts s + n
   \<and> clock (snd (cycles n scripts s)) = clock s + 10 * n
   \<and> removed (snd (cycles n scripts s)) = removed s"
proof (induction n arbitrary: s)
  case 0
  then show ?case by simp
next
  case (Suc n)
  show ?case
  proof (cases "returned (fst (cycle scripts s))")
    case True
    then obtain e where e: "fst (cycle scripts s) = Returned e"
      by (cases "fst (cycle scripts s)") (auto simp: returned_def)
    from Suc.prems have "returned (fst (cycles n scripts (snd (cycle scripts s))))"
      by (simp only: cycles_Suc_returned [OF True])
    from Suc.IH [OF this] cycle_keeps [of scripts s] cycle_Returned [OF e]
    show ?thesis
      by (simp only: cycles_Suc_returned [OF True]) simp
  next
    case False
    with Suc.prems cycles_Suc_stopped show ?thesis by blast
  qed
qed

lemma startStreaming_returns:
  assumes "startStreaming scripts s = Some y"
  shows "\<exists>n. \<not> returned (fst (cycles n scripts s))"
proof (rule startStreaming.raw_induct
    [where P = "\<lambda>scripts s y. \<exists>n. \<not> returned (fst (cycles n scripts s))", OF _ assms],
    goal_cases)
  case (1 f scripts s y)
  note IH = "1"(1) and body = "1"(2)
  show ?case
  proof (cases "returned (fst (cycle scripts s))")
    case True
    with body have "f scripts (snd (cycle scripts s)) = Some y" by simp
    from IH [OF this] obtain n
      where "\<not> returned (fst (cycles n scripts (snd (cycle scripts s))))" ..
    then have "\<not> returned (fst (cycles (Suc n) scripts s))"
      by (simp only: cycles_Suc_returned [OF True] simp_thms)
    then show ?thesis ..
  next
    case False
    then have "\<not> returned (fst (cycles (Suc 0) scripts s))"
      by (rule cycles_Suc_stopped)
    then show ?thesis ..
  qed
qed

lemma startStreaming_forever:
  "\<forall>n. returned (fst (cycles n scripts s)) \<Longrightarrow> startStreaming scripts s = None"
proof (cases "startStreaming scripts s")
  case None
  then show ?thesis .
next
  case (Some y)
  assume "\<forall>n. returned (fst (cycles n scripts s))"
  with startStreaming_returns [OF Some] show ?thesis by blast
qed

lemma stream_silence:
  "dpool s = Some p \<Longrightarrow> \<exists>e p'. stream (silence k) s = (Returned e, s\<lparr> dpool := Some p' \<rparr>)"
  by (cases "idle p")
    (auto simp: stream_def Connect_def pool_Get_def stream_body_def silence_def drain_Nil
      ReleaseConnection_def)

lemma cycle_silence:
  assumes "dpool s \<noteq> None"
  shows "returned (fst (cycle silence s)) \<and> dpool (snd (cycle silence s)) \<noteq> None"
proof -
  let ?s0 = "s\<lparr> attempts := Suc (attempts s) \<rparr>"
  from assms obtain p where "dpool ?s0 = Some p" by auto
  from stream_silence [OF this, of "attempts s"] obtain e p'
    where "stream (silence (attempts s)) ?s0 = (Returned e, ?s0\<lparr> dpool := Some p' \<rparr>)" by blast
  then show ?thesis
    by (simp add: cycle_def returned_def Sleep_def)
qed

lemma cycles_silence: "dpool s \<noteq> None \<Longrightarrow> returned (fst (cycles n silence s))"
proof (induction n arbitrary: s)
  case 0
  then show ?case by (simp add: returned_def)
next
  case (Suc n)
  from cycle_silence [OF Suc.prems]
  have r: "returned (fst (cycle silence s))" and d: "dpool (snd (cycle silence s)) \<noteq> None"
    by simp_all
  from Suc.IH [OF d] show ?case
    by (simp only: cycles_Suc_returned [OF r])
qed

lemma dpool_removed_hub: "dpool removed_hub \<noteq> None \<and> removed removed_hub
    \<and> attempts removed_hub = 0 \<and> clock removed_hub = 0"
  by (simp add: removed_hub_def streaming_hub_def StartProducingEvents_def InitConnections_def
      NewDevice_def Let_def)

subsection \<open>The channels of a device\<close>

lemma apply_op_chans:
  assumes "apply_op op s = Inr (dones, s')"
  shows "next_chan s \<le> next_chan s'
     \<and> (\<forall>ch. ch < next_chan s \<longrightarrow> bool_chans s' ch = bool_chans s ch)
     \<and> (\<forall>ch \<in> set dones. next_chan s \<le> ch \<and> ch < next_chan s' \<and> bool_chans s' ch = new_chan)"
proof (cases op)
  case Op_InitConnections
  with assms show ?thesis by (auto simp: apply_op_def InitConnections_def)
next
  case Op_Connect
  with assms show ?thesis
    by (auto simp: apply_op_def Connect_def pool_Get_def split: option.splits list.splits)
next
  case (Op_ReleaseConnection c)
  with assms show ?thesis
    by (auto simp: apply_op_def ReleaseConnection_def split: option.splits)
next
  case Op_StartProducingEvents
  with assms show ?thesis
    by (auto simp: apply_op_def StartProducingEvents_def Let_def)
next
  case (Op_Authenticate c io)
  with assms have "s' = snd (Authenticate c io s)" and "dones = []"
    by (simp_all add: apply_op_def)
  moreover have "next_chan (snd (Authenticate c io s)) = next_chan s
      \<and> bool_chans (snd (Authenticate c io s)) = bool_chans s"
    by (simp add: Authenticate_def Let_def)
  ultimately show ?thesis by simp
next
  case (Op_Ping c ok)
  with assms show ?thesis
    by (auto simp: apply_op_def ping_def)
next
  case (Op_StreamingTurn scripts)
  show ?thesis
  proof (cases "streamers s = 0")
    case True
    with assms Op_StreamingTurn show ?thesis by (simp add: apply_op_def)
  next
    case False
    with assms Op_StreamingTurn have "dones = [] \<and> s' = snd (cycle scripts s)"
      by (auto simp: apply_op_def split: prod.splits outcome.splits)
    with cycle_keeps [of scripts s] show ?thesis by simp
  qed
qed

lemma run_ops_chans:
  "run_ops ops s = (dones, s', p) \<Longrightarrow>
   next_chan s \<le> next_chan s'
   \<and> (\<forall>ch. ch < next_chan s \<longrightarrow> bool_chans s' ch = bool_chans s ch)
   \<and> (\<forall>ch \<in> set dones. next_chan s \<le> ch \<and> ch < next_chan s' \<and> bool_chans s' ch = new_chan)"
proof (induction ops arbitrary: s dones s' p)
  case Nil
  then show ?case by simp
next
  case (Cons op ops)
  show ?case
  proof (cases "apply_op op s")
    case (Inl e)
    with Cons.prems show ?thesis by simp
  next
    case (Inr x)
    obtain d1 s1 where x: "x = (d1, s1)" by (cases x)
    obtain d2 s2 p2 where r: "run_ops ops s1 = (d2, s2, p2)"
      by (cases "run_ops ops s1")
    from Cons.prems Inr x r have res: "dones = d1 @ d2" "s' = s2" by simp_all
    from Inr x have "apply_op op s = Inr (d1, s1)" by simp
    from apply_op_chans [OF this]
    have a1: "next_chan s \<le> next_chan s1"
      and a2: "\<And>ch. ch < next_chan s \<Longrightarrow> bool_chans s1 ch = bool_chans s ch"
      and a3: "\<And>ch. ch \<in> set d1 \<Longrightarrow>
          next_chan s \<le> ch \<and> ch < next_chan s1 \<and> bool_chans s1 ch = new_chan"
      by blast+
    from Cons.IH [OF r]
    have b1: "next_chan s1 \<le> next_chan s2"
      and b2: "\<And>ch. ch < next_chan s1 \<Longrightarrow> bool_chans s2 ch = bool_chans s1 ch"
      and b3: "\<And>ch. ch \<in> set d2 \<Longrightarrow>
          next_chan s1 \<le> ch \<and> ch < next_chan s2 \<and> bool_chans s2 ch = new_chan"
      by blast+
    have "next_chan s \<le> next_chan s2"
      using a1 b1 by simp
    moreover have "\<forall>ch. ch < next_chan s \<longrightarrow> bool_chans s2 ch = bool_chans s ch"
      using a1 a2 b2 by (metis less_le_trans)
    moreover have "\<forall>ch \<in> set (d1 @ d2).
        next_chan s \<le> ch \<and> ch < next_chan s2 \<and> bool_chans s2 ch = new_chan"
    proof
      fix ch
      assume "ch \<in> set (d1 @ d2)"
      then consider "ch \<in> set d1" | "ch \<in> set d2" by auto
      then show "next_chan s \<le> ch \<and> ch < next_chan s2 \<and> bool_chans s2 ch = new_chan"
      proof cases
        case 1
        from a3 [OF 1] b1 b2 show ?thesis by (metis less_le_trans)
      next
        case 2
        from b3 [OF 2] a1 show ?thesis by (metis le_trans)
      qed
    qed
    ultimately show ?thesis
      unfolding res by blast
  qed
qed

subsection \<open>The steps of a recipe\<close>

lemma open_calls_snoc:
  "open_calls l (h @ [x]) = (if by_listener l x then track (open_calls l h) x else open_calls l h)"
  by (simp add: open_calls_def)

lemma step_open_calls:
  assumes "step t l s = Some s'"
    and "open_calls FireListener (runs s) = Some (fl s = FL_Exec)"
    and "open_calls EventListener (runs s) = Some (el s = EL_Exec)"
  shows "open_calls FireListener (runs s') = Some (fl s' = FL_Exec)
     \<and> open_calls EventListener (runs s') = Some (el s' = EL_Exec)"
proof (cases l)
  case (L_SetEnabled b)
  with assms show ?thesis by (auto simp: step_def)
next
  case (L_Fire f)
  with assms show ?thesis by (auto simp: step_def split: if_splits)
next
  case (L_Event e)
  with assms show ?thesis by (auto simp: step_def split: if_splits)
next
  case L_CloseSink
  with assms show ?thesis by (auto simp: step_def split: if_splits)
next
  case L_FireListener
  with assms show ?thesis
    by (cases "fl s") (auto simp: step_def open_calls_snoc split: if_splits)
next
  case L_EventListener
  with assms show ?thesis
    by (cases "el s")
      (auto simp: step_def open_calls_snoc split: if_splits prod.splits bool.splits)
next
  case (L_ExecuteReturns who err)
  with assms show ?thesis
    by (cases who) (auto simp: step_def open_calls_snoc split: if_splits)
qed

lemma run_open_calls:
  "run t ls s = Some s' \<Longrightarrow>
   open_calls FireListener (runs s) = Some (fl s = FL_Exec) \<Longrightarrow>
   open_calls EventListener (runs s) = Some (el s = EL_Exec) \<Longrightarrow>
   open_calls FireListener (runs s') = Some (fl s' = FL_Exec)
   \<and> open_calls EventListener (runs s') = Some (el s' = EL_Exec)"
proof (induction ls arbitrary: s)
  case Nil
  then show ?case by simp
next
  case (Cons l ls)
  from Cons.prems(1) obtain s1 where s1: "step t l s = Some s1" and r: "run t ls s1 = Some s'"
    by (cases "step t l s") auto
  from step_open_calls [OF s1 Cons.prems(2,3)] Cons.IH [OF r] show ?case by blast
qed

lemma start_open_calls:
  "open_calls FireListener (runs (StartConsumingEvents t r))
     = Some (fl (StartConsumingEvents t r) = FL_Exec)
   \<and> open_calls EventListener (runs (StartConsumingEvents t r))
     = Some (el (StartConsumingEvents t r) = EL_Exec)"
  by (simp add: StartConsumingEvents_def open_calls_def)













section \<open>The claims\<close>


text \<open>
  C1. Rendering SetZoneLevel for a registered zone and an intensity in [0,100] and parsing
  the text back yields the zone-set-level command for the same zone and intensity.
  The code does not do so: the rendered text starts with \<open>#\<close>, and the pattern of
  \<open>parseZoneCommand\<close> accepts \<open>~\<close>, \<open>|\<close> and \<open>?\<close> before \<open>OUTPUT\<close>. For zone
  12 and intensity 55 the rendered text is \<open>#OUTPUT,12,1,55.00\<close>; parsing it gives
  no command, while the same fields after \<open>~\<close> parse to the command.
\<close>

theorem rendered_zone_level_does_not_parse_back:
  "rendered (buildCommand set_level_55) = Some level_frame
   \<and> parseCommandString hub level_frame = Inr (None, None)
   \<and> parsed (parseCommandString hub level_update) = Some (CTZoneSetLevel, level_frame)"
proof -
  have "rendered (buildCommand set_level_55) = Some level_frame"
    by (simp add: rendered_def buildCommand_def set_level_55_def sprintf_55 zone12_def
        level_frame_def)
  moreover have "parseCommandString hub level_frame = Inr (None, None)"
    by (simp add: level_frame_def parseCommandString_def parseZoneCommand_def re_defs)
  moreover have "parsed (parseCommandString hub level_update) = Some (CTZoneSetLevel, level_frame)"
    by (simp add: level_update_def level_frame_def parsed_def parseCommandString_def
        parseZoneCommand_def re_defs hub_def buildCommand_def ParseFloat_55 sprintf_55 zone12_def)
  ultimately show ?thesis by blast
qed

text \<open>
  C4. A DEVICE frame whose sub-device id or button id does not resolve is dropped: no
  event, no error, no crash. The code drops the frame when the sub-device is unknown.
  When the sub-device is known and the button is not, with action code 3 or 4,
  \<open>buildCommand\<close> reads the local id of a nil button: \<open>parseCommandString\<close> panics,
  and so does \<open>stream\<close>. The hub has the keypad 9, which has no button 7.
\<close>

theorem unknown_button_frame_panics:
  "d_Devices hub ''9'' = Some keypad9 \<and> d_Buttons keypad9 ''7'' = None
   \<and> parseCommandString hub press_of_button_7 = Inl NilDereference
   \<and> fst (stream \<lparr> chunks = [press_of_button_7], ending = EOF \<rparr> streaming_hub)
       = Panicked NilDereference"
proof -
  obtain s1 where s1: "Connect streaming_hub = (Inr (Inr 0), s1)" "evpFire s1 = Some 1"
      "device s1 = hub" "dpool s1 = Some \<lparr> idle = [1], handed_out = [0], given_back = [] \<rparr>"
    using Connect_streaming_hub by blast
  have "stream_body \<lparr> chunks = [press_of_button_7], ending = EOF \<rparr> s1
      = (Panicked NilDereference, s1)"
    by (simp add: stream_body_def scan_press_of_button_7 s1 unknown_button_panics del: scan.simps)
  then have "fst (stream \<lparr> chunks = [press_of_button_7], ending = EOF \<rparr> streaming_hub)
      = Panicked NilDereference"
    by (simp add: stream_def s1 ReleaseConnection_def)
  moreover have "d_Devices hub ''9'' = Some keypad9 \<and> d_Buttons keypad9 ''7'' = None"
    by (simp add: hub_def keypad9_def)
  ultimately show ?thesis
    using unknown_button_panics by blast
qed

text \<open>
  C5. A press or release intent renders as \<open>#DEVICE,<subDeviceId>,<buttonId>,3\<close> or
  \<open>...,4\<close> with the local id of the sub-device. The code writes the name of the
  sub-device in that place: for the keypad with local id 9 and name Keypad, the text is
  \<open>#DEVICE,Keypad,3,3\<close>.
\<close>

theorem button_command_renders_device_name:
  "d_LocalID keypad9 = ''9'' \<and> b_LocalID button3 = ''3''
   \<and> rendered (buildCommand press_3) = Some (''#DEVICE,Keypad,3,3'' @ CRLF)
   \<and> rendered (buildCommand release_3) = Some (''#DEVICE,Keypad,3,4'' @ CRLF)"
  by (simp add: rendered_def buildCommand_def press_3_def release_3_def keypad9_def button3_def)




text \<open>
  C7. Tokenizer fragmentation invariance: a complete frame, delivered in one chunk or cut
  into many, yields the identical single decoded frame. The split closure takes the byte
  offsets of the match as indices into the runes of the buffer. The frame
  \<open>accented_frame\<close> holds a letter of two bytes: the pattern matches its 19 bytes, the
  buffer has 18 runes, and the slice ends one rune beyond them. The closure panics, or,
  where the rune slice has spare capacity, hands out the frame with a zero byte
  appended. When the next frame is in the buffer already, the token is the frame and the
  first byte of the next frame. So the frame is never handed out as it arrived, and the
  tokens depend on how the reads cut the stream.
\<close>

theorem frame_with_two_byte_letter_is_miscut:
  "FindStringIndex split_re accented_frame = Some (0, length accented_frame)
   \<and> length accented_frame = 19 \<and> length (runes accented_frame) = 18
   \<and> scan cap [] [accented_frame] EOF =
       (if 19 \<le> cap 18 then ([accented_frame @ [CHR 0x00]], ScanDone None)
        else ([], ScanPanic SliceBounds))
   \<and> scan cap [] [accented_frame @ level_update] EOF =
       ([accented_frame @ ''~'', level_update], ScanDone None)
   \<and> scan cap [] [accented_frame, level_update] EOF =
       (if 19 \<le> cap 18 then ([accented_frame @ [CHR 0x00], level_update], ScanDone None)
        else ([], ScanPanic SliceBounds))"
proof -
  have a: "FindStringIndex split_re accented_frame = Some (0, length accented_frame)"
    using FindStringIndex_accented [of "[]"] by (simp add: length_accented_frame)
  have b: "length (runes accented_frame) = 18"
    using runes_accented [of "[]"] by (simp add: runes.simps CRLF_def)
  have c: "scan cap [] [accented_frame] EOF =
       (if 19 \<le> cap 18 then ([accented_frame @ [CHR 0x00]], ScanDone None)
        else ([], ScanPanic SliceBounds))"
    by (simp add: drain_Nil drain_accented MaxScanTokenSize_def)
  have d: "scan cap [] [accented_frame @ level_update] EOF =
       ([accented_frame @ ''~'', level_update], ScanDone None)"
    by (simp add: drain_Nil drain_accented_then_level MaxScanTokenSize_def)
  have e: "scan cap [] [accented_frame, level_update] EOF =
       (if 19 \<le> cap 18 then ([accented_frame @ [CHR 0x00], level_update], ScanDone None)
        else ([], ScanPanic SliceBounds))"
    by (simp add: drain_Nil drain_accented drain_level_update MaxScanTokenSize_def)
  from a length_accented_frame b c d e show ?thesis by blast
qed

text \<open>
  C8. A connection that the streaming cycle obtains from the pool goes back to the pool
  exactly once, however the cycle ends. When \<open>Connect\<close> gives \<open>stream\<close> the connection
  \<open>c\<close>, the call of \<open>stream\<close> ends (it returns or panics), whatever the connection
  delivers, and over the call the pool has handed out \<open>c\<close> once and has got back \<open>c\<close>
  once.
\<close>

theorem connection_released_exactly_once:
  assumes "Connect s = (Inr (Inr c), s1)"
  shows "fst (stream sc s) \<noteq> NoReturn
     \<and> acquired (snd (stream sc s)) = acquired s @ [c]
     \<and> released (snd (stream sc s)) = released s @ [c]"
proof -
  from Connect_cases [OF assms] obtain p cs where p: "dpool s = Some p" "idle p = c # cs"
    by blast
  from stream_connected [OF p, of sc] show ?thesis
    using p(1) by (auto simp: acquired_def released_def pool_Release_def)
qed

theorem connection_released_exactly_once_witness:
  "fst (Connect streaming_hub) = Inr (Inr 0)
   \<and> fst (stream first_read_fails streaming_hub) = Returned (Some (StreamingStopped ErrRead))
   \<and> acquired (snd (stream first_read_fails streaming_hub)) = [0]
   \<and> released (snd (stream first_read_fails streaming_hub)) = [0]"
proof -
  obtain s1 where s1: "Connect streaming_hub = (Inr (Inr 0), s1)"
      "dpool s1 = Some \<lparr> idle = [1], handed_out = [0], given_back = [] \<rparr>"
    using Connect_streaming_hub by blast
  have body: "stream_body first_read_fails s1 = (Returned (Some (StreamingStopped ErrRead)), s1)"
    by (simp add: stream_body_def first_read_fails_def drain_Nil MaxScanTokenSize_def)
  have r: "fst (stream first_read_fails streaming_hub) = Returned (Some (StreamingStopped ErrRead))"
    by (simp add: stream_def s1 body ReleaseConnection_def)
  have a: "acquired streaming_hub = [] \<and> released streaming_hub = []"
    by (simp add: acquired_def released_def streaming_hub_def StartProducingEvents_def
        InitConnections_def NewDevice_def NewConnectionPool_def Let_def)
  from connection_released_exactly_once [OF s1(1), of first_read_fails] r a s1(1)
  show ?thesis by simp
qed

text \<open>
  C3, the claim as stated: the streaming loop retries without end unless the removal of
  the device is observed, and then it exits. The loop reads no such signal: for the hub
  that has been removed, \<open>startStreaming\<close> does not return, and after three turns it
  has made three attempts.
\<close>

theorem removed_device_keeps_streaming:
  "removed removed_hub
   \<and> startStreaming silence removed_hub = None
   \<and> attempts (snd (cycles 3 silence removed_hub)) = 3"
proof -
  have d: "dpool removed_hub \<noteq> None" and r: "removed removed_hub"
    and a: "attempts removed_hub = 0"
    using dpool_removed_hub by simp_all
  have "\<forall>n. returned (fst (cycles n silence removed_hub))"
    using cycles_silence [OF d] by blast
  then have "startStreaming silence removed_hub = None"
    by (rule startStreaming_forever)
  moreover have "attempts (snd (cycles 3 silence removed_hub)) = 3"
    using cycles_count [OF cycles_silence [OF d, of 3]] a by simp
  ultimately show ?thesis
    using r by blast
qed

text \<open>
  C3, amended: as long as no call of \<open>stream\<close> panics or hangs, the streaming loop
  retries the connect-and-stream cycle without end, with a sleep of 10 seconds after
  every attempt: after \<open>n\<close> turns it has made \<open>n\<close> attempts and slept \<open>10 * n\<close>
  seconds. It takes no cancellation signal and does not exit; whether the device has
  been removed makes no difference, and the loop leaves that flag as it is.
\<close>

theorem streaming_loop_never_exits:
  assumes "\<forall>n. returned (fst (cycles n scripts s))"
  shows "startStreaming scripts s = None
     \<and> (\<forall>n. attempts (snd (cycles n scripts s)) = attempts s + n
            \<and> clock (snd (cycles n scripts s)) = clock s + 10 * n
            \<and> removed (snd (cycles n scripts s)) = removed s)"
  using assms startStreaming_forever [OF assms] cycles_count by blast

theorem streaming_loop_never_exits_witness:
  "removed removed_hub
   \<and> returned (fst (cycles 2 silence removed_hub))
   \<and> startStreaming silence removed_hub = None
   \<and> attempts (snd (cycles 2 silence removed_hub)) = 2
   \<and> clock (snd (cycles 2 silence removed_hub)) = 20
   \<and> removed (snd (cycles 2 silence removed_hub))"
proof -
  have d: "dpool removed_hub \<noteq> None" and r: "removed removed_hub"
    and a: "attempts removed_hub = 0" and c: "clock removed_hub = 0"
    using dpool_removed_hub by simp_all
  have all: "\<forall>n. returned (fst (cycles n silence removed_hub))"
    using cycles_silence [OF d] by blast
  note t = streaming_loop_never_exits [OF all]
  from t have "attempts (snd (cycles 2 silence removed_hub)) = attempts removed_hub + 2
      \<and> clock (snd (cycles 2 silence removed_hub)) = clock removed_hub + 10 * 2
      \<and> removed (snd (cycles 2 silence removed_hub)) = removed removed_hub"
    by blast
  moreover from t have "startStreaming silence removed_hub = None"
    by blast
  moreover from all have "returned (fst (cycles 2 silence removed_hub))"
    by blast
  ultimately show ?thesis
    using r a c by simp
qed

text \<open>
  C10. The second channel that \<open>StartProducingEvents\<close> returns is never sent on and
  never closed by the device. After any run of steps of the device from any state, with
  or without a panic at its end, every \<open>evpDone\<close> channel handed out during the run is
  as it was made: open, with nothing sent. A receive on it is never able to complete.
\<close>

theorem done_channel_never_signalled:
  assumes "run_ops ops s = (dones, s', p)" and "ch \<in> set dones"
  shows "bool_chans s' ch = new_chan
     \<and> \<not> ch_closed (bool_chans s' ch)
     \<and> ch_sent (bool_chans s' ch) = []
     \<and> \<not> can_receive (bool_chans s' ch)"
proof -
  from run_ops_chans [OF assms(1)] assms(2) have "bool_chans s' ch = new_chan"
    by blast
  then show ?thesis
    by (simp add: new_chan_def can_receive_def)
qed

theorem done_channel_never_signalled_witness:
  "fst (run_ops two_starts fresh_hub) = [0, 2]
   \<and> snd (snd (run_ops two_starts fresh_hub)) = None
   \<and> \<not> can_receive (bool_chans (fst (snd (run_ops two_starts fresh_hub))) 0)
   \<and> \<not> can_receive (bool_chans (fst (snd (run_ops two_starts fresh_hub))) 2)"
proof -
  have s2: "StartProducingEvents (InitConnections fresh_hub) = ((1, 0), streaming_hub)"
    by (simp add: streaming_hub_def fresh_hub_def StartProducingEvents_def InitConnections_def
        NewDevice_def Let_def)
  have st: "streamers streaming_hub = 1" and nc: "next_chan streaming_hub = 2"
    and dp: "dpool streaming_hub \<noteq> None"
    by (simp_all add: streaming_hub_def StartProducingEvents_def InitConnections_def
        NewDevice_def Let_def)
  obtain r s3 where cy: "cycle silence streaming_hub = (r, s3)"
    by (cases "cycle silence streaming_hub")
  with cycle_silence [OF dp] obtain e where r: "r = Returned e"
    by (cases r) (auto simp: returned_def)
  from cycle_keeps [of silence streaming_hub] cy nc have n3: "next_chan s3 = 2"
    by simp
  obtain s4 where s4: "StartProducingEvents s3 = ((3, 2), s4)"
    using n3 by (simp add: StartProducingEvents_def Let_def)
  have run: "run_ops two_starts fresh_hub = ([0, 2], s4, None)"
    by (simp add: two_starts_def apply_op_def s2 st cy r s4)
  have "0 \<in> set [0, 2 :: nat]" and "2 \<in> set [0, 2 :: nat]"
    by simp_all
  from done_channel_never_signalled [OF run this(1)]
    done_channel_never_signalled [OF run this(2)]
  have "\<not> can_receive (bool_chans s4 0)" and "\<not> can_receive (bool_chans s4 2)"
    by blast+
  then show ?thesis
    by (simp add: run)
qed

text \<open>
  C2, the claim as stated: no two executions of the action of a recipe overlap. The two
  listeners share no lock. In the schedule \<open>both_fire\<close> the fire listener receives a
  signal and calls \<open>Action.Execute\<close>, and before that call returns the event listener
  receives an event and calls \<open>Action.Execute\<close> as well: both are inside the call, and
  the history has two calls open at once.
\<close>

theorem both_listeners_execute_at_once:
  "map_option (\<lambda>s. (fl s, el s = EL_Exec, runs s))
     (run always both_fire (StartConsumingEvents always lights_on))
     = Some (FL_Exec, True, [Begin FireListener, Begin EventListener])
   \<and> \<not> overlap_free [Begin FireListener, Begin EventListener]"
  by (simp add: both_fire_def step_def StartConsumingEvents_def always_def lights_on_def
      NewRecipe_def overlap_free_def)

text \<open>
  C2, amended: the executions that one listener of a recipe starts do not overlap each
  other: each listener calls \<open>executeAction\<close> in its own loop and takes its next signal
  or event after the call has returned. In every state that a started recipe reaches,
  the calls of each listener, read on their own, are free of overlap. (Executions
  started by the two different listeners are not serialized.)
\<close>

theorem executions_of_one_listener_do_not_overlap:
  assumes "run t ls (StartConsumingEvents t r) = Some s"
  shows "overlap_free (filter (by_listener FireListener) (runs s))
     \<and> overlap_free (filter (by_listener EventListener) (runs s))"
  using run_open_calls [OF assms] start_open_calls [of t r]
  by (simp add: overlap_free_def open_calls_def)

theorem executions_of_one_listener_do_not_overlap_witness:
  "map_option runs (run always two_rounds (StartConsumingEvents always lights_on))
     = Some [Begin FireListener, Begin EventListener, End FireListener None,
             Begin FireListener, End EventListener (Some ActionFailed)]
   \<and> filter (by_listener FireListener)
        [Begin FireListener, Begin EventListener, End FireListener None,
         Begin FireListener, End EventListener (Some ActionFailed)]
       = [Begin FireListener, End FireListener None, Begin FireListener]
   \<and> overlap_free [Begin FireListener, End FireListener None, Begin FireListener]
   \<and> overlap_free (filter (by_listener EventListener)
        [Begin FireListener, Begin EventListener, End FireListener None,
         Begin FireListener, End EventListener (Some ActionFailed)])"
proof -
  obtain s where s: "run always two_rounds (StartConsumingEvents always lights_on) = Some s"
    and r: "runs s = [Begin FireListener, Begin EventListener, End FireListener None,
             Begin FireListener, End EventListener (Some ActionFailed)]"
    by (simp add: two_rounds_def both_fire_def step_def StartConsumingEvents_def always_def
        lights_on_def NewRecipe_def)
  from executions_of_one_listener_do_not_overlap [OF s] s r show ?thesis
    by simp
qed



end
